theory Spec2Isabelle
  imports Main
begin

section \<open>Bytes, blocks of memory and C strings\<close>

text \<open>
  The program of \<^verbatim>\<open>src/8192.c\<close> is one function, \<^verbatim>\<open>main\<close>, that works on
  character arrays through the C library. A block of memory is modelled as the list of
  its bytes; a block that is not allocated has no bytes, so that every access to it is
  out of bounds. The C string held by a block runs up to its first NUL byte.

  Behaviour the C standard leaves undefined is a value of type \<open>fault\<close>: a call of
  \<^verbatim>\<open>fscanf\<close> on a null stream, and a read or write beyond the end of a block.
\<close>

abbreviation NUL :: char where
  "NUL \<equiv> CHR 0x00"

datatype fault = NullStream | OutOfBounds

definition cstr :: "char list \<Rightarrow> string" where
  "cstr b = takeWhile (\<lambda>c. c \<noteq> NUL) b"

text \<open>A string literal of the source: its characters and the terminating NUL.\<close>

definition lit :: "string \<Rightarrow> char list" where
  "lit s = s @ [NUL]"

text \<open>
  \<^verbatim>\<open>strcat(dst, src)\<close>: looks for the end of the string in \<open>dst\<close>, and copies the
  string of \<open>src\<close> and a NUL there. It does not know the size of \<open>dst\<close>: when either
  block holds no NUL, or the result does not fit, it runs over the end of a block.
\<close>

definition strcat :: "char list \<Rightarrow> char list \<Rightarrow> fault + char list" where
  "strcat dst src =
     (if NUL \<in> set dst \<and> NUL \<in> set src
         \<and> length (cstr dst) + length (cstr src) + 1 \<le> length dst
      then Inr (cstr dst @ cstr src @ NUL # drop (length (cstr dst) + length (cstr src) + 1) dst)
      else Inl OutOfBounds)"

text \<open>
  \<^verbatim>\<open>sprintf(iter_string, "%d", iter)\<close> with \<^verbatim>\<open>char iter_string[10]\<close>: the decimal
  digits of \<open>iter\<close>, without padding, and a NUL. The counter \<^verbatim>\<open>iter\<close> starts at 1 and
  is only incremented; ten digits do not fit the array, so the counter never comes near
  the range of \<^verbatim>\<open>int\<close> and is modelled as a natural number.
\<close>

definition digit :: "nat \<Rightarrow> char" where
  "digit d = ''0123456789'' ! d"

fun decimal :: "nat \<Rightarrow> string" where
  "decimal n = (if n < 10 then [digit n] else decimal (n div 10) @ [digit (n mod 10)])"

declare decimal.simps [simp del]

definition sprintf_d :: "nat \<Rightarrow> fault + char list" where
  "sprintf_d n = (if length (decimal n) + 1 \<le> 10 then Inr (lit (decimal n)) else Inl OutOfBounds)"

text \<open>
  Lines 22 to 31 of the source: the name is put together by six calls of \<^verbatim>\<open>strcat\<close>
  on the block \<open>fname\<close> as \<^verbatim>\<open>malloc\<close> returned it. Nothing initialises that block
  before the first \<^verbatim>\<open>strcat\<close>.
\<close>

definition build_name :: "char list \<Rightarrow> char list \<Rightarrow> char list \<Rightarrow> nat \<Rightarrow> fault + char list" where
  "build_name fname folder file_format iter =
     (case strcat fname (lit ''./'') of Inl e \<Rightarrow> Inl e | Inr b1 \<Rightarrow>
      case strcat b1 folder of Inl e \<Rightarrow> Inl e | Inr b2 \<Rightarrow>
      case strcat b2 (lit ''/'') of Inl e \<Rightarrow> Inl e | Inr b3 \<Rightarrow>
      case strcat b3 file_format of Inl e \<Rightarrow> Inl e | Inr b4 \<Rightarrow>
      case strcat b4 (lit ''_'') of Inl e \<Rightarrow> Inl e | Inr b5 \<Rightarrow>
      case sprintf_d iter of Inl e \<Rightarrow> Inl e | Inr iter_string \<Rightarrow>
      strcat b5 iter_string)"

section \<open>Formatted input\<close>

text \<open>White space as \<^verbatim>\<open>isspace\<close> sees it in the C locale.\<close>

definition isspace :: "char \<Rightarrow> bool" where
  "isspace c = (c \<in> set [CHR '' '', CHR 0x09, CHR 0x0A, CHR 0x0B, CHR 0x0C, CHR 0x0D])"

definition skip_space :: "string \<Rightarrow> string" where
  "skip_space inp = dropWhile isspace inp"

definition token :: "string \<Rightarrow> string" where
  "token inp = takeWhile (\<lambda>c. \<not> isspace c) inp"

definition after_token :: "string \<Rightarrow> string" where
  "after_token inp = dropWhile (\<lambda>c. \<not> isspace c) inp"

text \<open>A \<^verbatim>\<open>%s\<close> conversion stores the token and a NUL; it has no field width here.\<close>

definition store_token :: "string \<Rightarrow> char list \<Rightarrow> fault + char list" where
  "store_token t b =
     (if length t + 1 \<le> length b then Inr (t @ NUL # drop (length t + 1) b) else Inl OutOfBounds)"

abbreviation EOF :: int where
  "EOF \<equiv> - 1"

text \<open>
  \<^verbatim>\<open>fscanf(trace_file, "%s %s", folder, file_format)\<close> on the unread input \<open>inp\<close>:
  the value returned, the input left, and the two blocks. A conversion that meets the
  end of the input stores nothing, so the block keeps what it held.
\<close>

definition fscanf_ss :: "string \<Rightarrow> char list \<Rightarrow> char list \<Rightarrow> fault + int \<times> string \<times> char list \<times> char list" where
  "fscanf_ss inp folder file_format =
     (let i1 = skip_space inp in
      if i1 = [] then Inr (EOF, [], folder, file_format)
      else
        case store_token (token i1) folder of
          Inl e \<Rightarrow> Inl e
        | Inr folder' \<Rightarrow>
            let i2 = skip_space (after_token i1) in
            if i2 = [] then Inr (1, [], folder', file_format)
            else
              case store_token (token i2) file_format of
                Inl e \<Rightarrow> Inl e
              | Inr file_format' \<Rightarrow> Inr (2, after_token i2, folder', file_format'))"

text \<open>
  \<^verbatim>\<open>fscanf(file, "%8192c", page_as_string)\<close> on a stream that delivers \<open>inp\<close>: up to
  8192 bytes are stored as they are read, no NUL is added, and the bytes of the block
  beyond a short input keep what they held.
\<close>

definition fscanf_8192c :: "string \<Rightarrow> char list \<Rightarrow> fault + char list" where
  "fscanf_8192c inp page =
     (if length (take 8192 inp) \<le> length page
      then Inr (take 8192 inp @ drop (length (take 8192 inp)) page)
      else Inl OutOfBounds)"

text \<open>Lines 56 to 59: the first \<open>n\<close> bytes of a block are set to 0.\<close>

definition zero_fill :: "nat \<Rightarrow> char list \<Rightarrow> fault + char list" where
  "zero_fill n b = (if n \<le> length b then Inr (replicate n NUL @ drop n b) else Inl OutOfBounds)"

section \<open>The world and the state of a run\<close>

text \<open>
  What the program meets and cannot choose: \<open>files w p\<close> is the content that a stream
  opened on the path \<open>p\<close> delivers (\<open>None\<close> when \<^verbatim>\<open>fopen(p, "r")\<close> returns a null
  pointer), and \<open>junk w k j\<close> is byte \<open>j\<close> of the block that the \<open>k\<close>-th call of
  \<^verbatim>\<open>malloc\<close> returns: \<^verbatim>\<open>malloc\<close> does not initialise the memory it hands out.
  Allocation itself is taken to succeed.
\<close>

record world =
  files :: "string \<Rightarrow> string option"
  junk :: "nat \<Rightarrow> nat \<Rightarrow> char"

text \<open>
  One probe of the scanner, as a log entry: the path given to \<^verbatim>\<open>fopen\<close>, and for a
  file that was opened the page buffer as \<^verbatim>\<open>fscanf\<close> left it.
\<close>

datatype probe = Absent string | Page string "char list"

text \<open>
  The state: the heap (pointers are the numbers of the blocks, in the order of
  allocation), the manifest stream (\<open>None\<close> is the null pointer), the bytes written to
  the standard output, and two logs that the program does not keep itself: what every
  \<^verbatim>\<open>fscanf\<close> on the manifest returned and left in the two name buffers, and the probes.
\<close>

record state =
  heap :: "nat \<Rightarrow> char list"
  allocs :: nat
  trace_file :: "string option"
  stdout :: string
  reads :: "(int \<times> string \<times> string) list"
  probes :: "probe list"

definition fresh :: "world \<Rightarrow> nat \<Rightarrow> nat \<Rightarrow> char list" where
  "fresh w k n = map (junk w k) [0..<n]"

definition malloc :: "world \<Rightarrow> nat \<Rightarrow> state \<Rightarrow> nat \<times> state" where
  "malloc w n st =
     (allocs st, st\<lparr>heap := (heap st)(allocs st := fresh w (allocs st) n), allocs := Suc (allocs st)\<rparr>)"

definition free :: "nat \<Rightarrow> state \<Rightarrow> state" where
  "free p st = st\<lparr>heap := (heap st)(p := [])\<rparr>"

definition printf :: "string \<Rightarrow> state \<Rightarrow> state" where
  "printf s st = st\<lparr>stdout := stdout st @ s\<rparr>"

section \<open>The program\<close>

text \<open>Line 15. The value that \<^verbatim>\<open>fscanf\<close> returns is not looked at.\<close>

definition read_record :: "nat \<Rightarrow> nat \<Rightarrow> state \<Rightarrow> fault \<times> state + state" where
  "read_record folder file_format st =
     (case trace_file st of
        None \<Rightarrow> Inl (NullStream, st)
      | Some inp \<Rightarrow>
          (case fscanf_ss inp (heap st folder) (heap st file_format) of
             Inl e \<Rightarrow> Inl (e, st)
           | Inr (n, rest, b1, b2) \<Rightarrow>
               Inr (st\<lparr>heap := (heap st)(folder := b1, file_format := b2),
                        trace_file := Some rest,
                        reads := reads st @ [(n, cstr b1, cstr b2)]\<rparr>)))"

text \<open>
  Lines 46 to 48: 8192 times, the pointer variable \<^verbatim>\<open>page_as_string\<close> is set to the
  null pointer. The variable is local to the branch; the heap is not written.
\<close>

fun clear_page :: "nat \<Rightarrow> nat option \<Rightarrow> state \<Rightarrow> nat option \<times> state" where
  "clear_page 0 page_as_string st = (page_as_string, st)"
| "clear_page (Suc m) page_as_string st = clear_page m None st"

text \<open>
  Lines 21 to 53, the body of the \<^verbatim>\<open>while\<close> loop: one probe. The result is the
  state and the value of \<^verbatim>\<open>keep_reading\<close>; \<^verbatim>\<open>iter\<close> is incremented exactly when
  \<^verbatim>\<open>keep_reading\<close> stays 1.
\<close>

definition probe :: "world \<Rightarrow> nat \<Rightarrow> nat \<Rightarrow> nat \<Rightarrow> state \<Rightarrow> fault \<times> state + state \<times> bool" where
  "probe w folder file_format iter st =
     (let (fname, st1) = malloc w 100 st in
      case build_name (heap st1 fname) (heap st1 folder) (heap st1 file_format) iter of
        Inl e \<Rightarrow> Inl (e, st1)
      | Inr b \<Rightarrow>
          let st2 = printf (cstr b @ '' \<newline>'') (st1\<lparr>heap := (heap st1)(fname := b)\<rparr>) in
          (case files w (cstr b) of
             None \<Rightarrow> Inr (free fname (st2\<lparr>probes := probes st2 @ [Absent (cstr b)]\<rparr>), False)
           | Some content \<Rightarrow>
               let (page_as_string, st3) = malloc w 8192 st2 in
               (case fscanf_8192c content (heap st3 page_as_string) of
                  Inl e \<Rightarrow> Inl (e, st3)
                | Inr pg \<Rightarrow>
                    let st4 = st3\<lparr>heap := (heap st3)(page_as_string := pg)\<rparr>;
                        st5 = printf ([heap st4 page_as_string ! 3] @ ''  \<newline>'') st4;
                        st6 = st5\<lparr>probes := probes st5 @ [Page (cstr b) (heap st5 page_as_string)]\<rparr>;
                        (page_as_string', st7) = clear_page 8192 (Some page_as_string) st6
                    in Inr (free fname st7, True))))"

text \<open>
  Lines 19 to 54, the \<^verbatim>\<open>while\<close> loop. It stops at the first path that cannot be
  opened. It cannot run for ever: at \<open>iter = 1000000000\<close> the digits no longer fit
  \<^verbatim>\<open>iter_string\<close>.
\<close>

function scan :: "world \<Rightarrow> nat \<Rightarrow> nat \<Rightarrow> nat \<Rightarrow> state \<Rightarrow> fault \<times> state + state" where
  "scan w folder file_format iter st =
     (case probe w folder file_format iter st of
        Inl x \<Rightarrow> Inl x
      | Inr (st', keep_reading) \<Rightarrow>
          if keep_reading then scan w folder file_format (iter + 1) st' else Inr st')"
  by pat_completeness auto

text \<open>Lines 56 to 59: both name buffers are set to 0, byte by byte.\<close>

definition clear_names :: "nat \<Rightarrow> nat \<Rightarrow> state \<Rightarrow> fault \<times> state + state" where
  "clear_names folder file_format st =
     (case zero_fill 100 (heap st folder) of
        Inl e \<Rightarrow> Inl (e, st)
      | Inr b1 \<Rightarrow>
          (case zero_fill 100 (heap st file_format) of
             Inl e \<Rightarrow> Inl (e, st)
           | Inr b2 \<Rightarrow> Inr (st\<lparr>heap := (heap st)(folder := b1, file_format := b2)\<rparr>)))"

text \<open>Lines 14 to 60: one turn of the \<^verbatim>\<open>for\<close> loop.\<close>

definition iteration :: "world \<Rightarrow> nat \<Rightarrow> nat \<Rightarrow> state \<Rightarrow> fault \<times> state + state" where
  "iteration w folder file_format st =
     (case read_record folder file_format st of
        Inl x \<Rightarrow> Inl x
      | Inr st1 \<Rightarrow>
          (case scan w folder file_format 1 st1 of
             Inl x \<Rightarrow> Inl x
           | Inr st2 \<Rightarrow> clear_names folder file_format st2))"

text \<open>
  Line 13: \<^verbatim>\<open>for (int i = 0; i < 400; i++)\<close>. The body does not use \<open>i\<close> and no
  statement leaves the loop, so the loop is its body \<open>n\<close> times, for \<open>n = 400\<close>.
\<close>

fun outer :: "world \<Rightarrow> nat \<Rightarrow> nat \<Rightarrow> nat \<Rightarrow> state \<Rightarrow> fault \<times> state + state" where
  "outer w folder file_format 0 st = Inr st"
| "outer w folder file_format (Suc n) st =
     (case iteration w folder file_format st of
        Inl x \<Rightarrow> Inl x
      | Inr st' \<Rightarrow> outer w folder file_format n st')"

text \<open>
  The state after line 8: the result of \<^verbatim>\<open>fopen("./trace_map.csv", "r")\<close> is stored
  and not tested, nothing is allocated and nothing is written yet.
\<close>

definition start :: "world \<Rightarrow> state" where
  "start w = \<lparr>heap = (\<lambda>p. []), allocs = 0, trace_file = files w ''./trace_map.csv'',
              stdout = [], reads = [], probes = []\<rparr>"

text \<open>
  \<^verbatim>\<open>main\<close>: the two name buffers are allocated (lines 10 and 11), the loop makes its
  400 turns, and the buffers are freed (lines 61 and 62). A run ends in a fault, with the
  state reached, or at the closing brace, where \<^verbatim>\<open>main\<close> returns 0 (no \<^verbatim>\<open>return\<close>
  or \<^verbatim>\<open>exit\<close> is written anywhere).
\<close>

definition main :: "world \<Rightarrow> fault \<times> state + int \<times> state" where
  "main w =
     (let (folder, st1) = malloc w 100 (start w);
          (file_format, st2) = malloc w 100 st1
      in case outer w folder file_format 400 st2 of
           Inl x \<Rightarrow> Inl x
         | Inr st3 \<Rightarrow> Inr (0, free folder (free file_format st3)))"

definition last_state :: "fault \<times> state + int \<times> state \<Rightarrow> state" where
  "last_state r = (case r of Inl (e, st) \<Rightarrow> st | Inr (status, st) \<Rightarrow> st)"

section \<open>The vocabulary of the specification\<close>

text \<open>
  The page file name of the specification, \<^verbatim>\<open>./<folder>/<stem>_<n>\<close>, with \<open>n\<close> in
  decimal and not padded.
\<close>

definition page_name :: "string \<Rightarrow> string \<Rightarrow> nat \<Rightarrow> string" where
  "page_name f s n = ''./'' @ f @ ''/'' @ s @ ''_'' @ decimal n"

text \<open>
  The records of a manifest: its white-space separated tokens, taken two by two.
\<close>

function tokens :: "string \<Rightarrow> string list" where
  "tokens inp =
     (if skip_space inp = [] then []
      else token (skip_space inp) # tokens (after_token (skip_space inp)))"
  by pat_completeness auto

fun pairs :: "'a list \<Rightarrow> ('a \<times> 'a) list" where
  "pairs (a # b # r) = (a, b) # pairs r"
| "pairs r = []"

definition records_of :: "string \<Rightarrow> (string \<times> string) list" where
  "records_of m = pairs (tokens m)"

definition yielded :: "string \<times> string \<Rightarrow> int \<times> string \<times> string" where
  "yielded r = (2, fst r, snd r)"

text \<open>The diagnostic output that belongs to one probe.\<close>

fun render :: "probe \<Rightarrow> string" where
  "render (Absent p) = p @ '' \<newline>''"
| "render (Page p buf) = p @ '' \<newline>'' @ [buf ! 3] @ ''  \<newline>''"

fun is_page :: "probe \<Rightarrow> bool" where
  "is_page (Page p buf) = True"
| "is_page (Absent p) = False"

fun path_of :: "probe \<Rightarrow> string" where
  "path_of (Page p buf) = p"
| "path_of (Absent p) = p"

section \<open>Observing a run\<close>

text \<open>The state that a step ends in, with or without a fault.\<close>

definition state_of :: "fault \<times> state + state \<Rightarrow> state" where
  "state_of r = (case r of Inl (e, st) \<Rightarrow> st | Inr st \<Rightarrow> st)"

text \<open>
  The exit status of a run that reaches the end of \<^verbatim>\<open>main\<close>, the fault of one that
  does not, the page buffer of a log entry, and the number of probes that failed.
\<close>

definition exit_status :: "fault \<times> state + int \<times> state \<Rightarrow> int option" where
  "exit_status r = (case r of Inl x \<Rightarrow> None | Inr (status, st) \<Rightarrow> Some status)"

definition fault_of :: "fault \<times> state + int \<times> state \<Rightarrow> fault option" where
  "fault_of r = (case r of Inl (e, st) \<Rightarrow> Some e | Inr x \<Rightarrow> None)"

fun buffer_of :: "probe \<Rightarrow> char list" where
  "buffer_of (Page p buf) = buf"
| "buffer_of (Absent p) = []"

definition absent_count :: "state \<Rightarrow> nat" where
  "absent_count st = length (filter (\<lambda>e. \<not> is_page e) (probes st))"

text \<open>
  The state in which the loop is entered: \<open>start\<close> after the two calls of
  \<^verbatim>\<open>malloc\<close>, which return the blocks 0 (\<^verbatim>\<open>folder\<close>) and 1 (\<^verbatim>\<open>file_format\<close>).
\<close>

definition init :: "world \<Rightarrow> state" where
  "init w = (start w)\<lparr>heap := (\<lambda>p. [])(0 := fresh w 0 100, 1 := fresh w 1 100), allocs := 2\<rparr>"

text \<open>
  The block \<open>fname\<close> of a probe made in the state \<open>st\<close>, after lines 22 to 31: the
  fresh block is the one numbered \<open>allocs st\<close>.
\<close>

definition name_block :: "world \<Rightarrow> nat \<Rightarrow> nat \<Rightarrow> nat \<Rightarrow> state \<Rightarrow> fault + char list" where
  "name_block w fo ff i st =
     build_name (fresh w (allocs st) 100)
       (if fo = allocs st then fresh w (allocs st) 100 else heap st fo)
       (if ff = allocs st then fresh w (allocs st) 100 else heap st ff) i"

section \<open>Invariants\<close>

text \<open>
  A log entry agrees with the world: a path logged as absent cannot be opened, and a
  page buffer is 8192 bytes long and starts with the bytes that were read from its file.
\<close>

fun entry_ok :: "world \<Rightarrow> probe \<Rightarrow> bool" where
  "entry_ok w (Absent p) = (files w p = None)"
| "entry_ok w (Page p buf) =
     (case files w p of
        None \<Rightarrow> False
      | Some c \<Rightarrow> length buf = 8192 \<and> take (length (take 8192 c)) buf = take 8192 c)"

text \<open>
  A page buffer that was filled is still a block of the heap, as the read left it: the
  program never writes to it again and never frees it.
\<close>

fun kept :: "world \<Rightarrow> state \<Rightarrow> probe \<Rightarrow> bool" where
  "kept w st (Absent p) = True"
| "kept w st (Page p buf) =
     (case files w p of
        None \<Rightarrow> False
      | Some c \<Rightarrow>
          list_ex (\<lambda>k. heap st k = buf \<and> fscanf_8192c c (fresh w k 8192) = Inr buf) [2..<allocs st])"

text \<open>
  What holds in every state of a run, from \<open>init\<close> on: the output is the rendering
  of the log of probes, and every entry of the log agrees with the world and the heap.
\<close>

definition inv :: "world \<Rightarrow> state \<Rightarrow> bool" where
  "inv w st =
     (2 \<le> allocs st \<and> stdout st = concat (map render (probes st))
      \<and> list_all (entry_ok w) (probes st) \<and> list_all (kept w st) (probes st))"

text \<open>
  A name buffer after lines 56 to 59, and a state in which the manifest has nothing
  left but white space and both name buffers are zeroed: the state of every turn of the
  loop after the last record.
\<close>

definition zeroed :: "char list \<Rightarrow> bool" where
  "zeroed b = (cstr b = [] \<and> NUL \<in> set b \<and> 100 \<le> length b)"

definition drained :: "state \<Rightarrow> bool" where
  "drained st =
     ((case trace_file st of None \<Rightarrow> False | Some inp \<Rightarrow> skip_space inp = [])
      \<and> zeroed (heap st 0) \<and> zeroed (heap st 1) \<and> 2 \<le> allocs st)"

section \<open>What the claims say, and the worlds they are tried in\<close>



text \<open>
  The byte at offset 3 of a page buffer is the byte at offset 3 of the file, when the
  file has one.
\<close>

fun offset3_of_file :: "world \<Rightarrow> probe \<Rightarrow> bool" where
  "offset3_of_file w (Absent p) = True"
| "offset3_of_file w (Page p buf) =
     (case files w p of
        None \<Rightarrow> False
      | Some c \<Rightarrow> (if 4 \<le> length c then buf ! 3 = c ! 3 else True))"

text \<open>
  The diagnostic output of a probe, with the byte taken from the file where the file has
  at least 4 bytes.
\<close>

fun report :: "world \<Rightarrow> probe \<Rightarrow> string" where
  "report w (Absent p) = p @ '' \<newline>''"
| "report w (Page p buf) =
     p @ '' \<newline>''
       @ [case files w p of
            None \<Rightarrow> buf ! 3
          | Some c \<Rightarrow> if 4 \<le> length c then c ! 3 else buf ! 3]
       @ ''  \<newline>''"

text \<open>No file can be opened.\<close>

definition no_manifest_world :: world where
  "no_manifest_world = \<lparr>files = (\<lambda>p. None), junk = (\<lambda>k j. NUL)\<rparr>"

text \<open>A manifest of one record and no page file.\<close>

definition bare_world :: world where
  "bare_world =
     \<lparr>files = map_of [(''./trace_map.csv'', ''d s\<newline>'')], junk = (\<lambda>k j. NUL)\<rparr>"

text \<open>A manifest of one record and one page of 8 bytes; memory comes back zeroed.\<close>

definition demo_world :: world where
  "demo_world =
     \<lparr>files = map_of [(''./trace_map.csv'', ''d s\<newline>''), (''./d/s_1'', ''abcdefgh'')],
      junk = (\<lambda>k j. NUL)\<rparr>"

text \<open>Two pages of 8 bytes; memory comes back zeroed.\<close>

definition two_page_world :: world where
  "two_page_world =
     \<lparr>files = map_of [(''./trace_map.csv'', ''d s\<newline>''), (''./d/s_1'', ''abcdefgh''),
                      (''./d/s_2'', ''ijklmnop'')],
      junk = (\<lambda>k j. NUL)\<rparr>"

text \<open>
  Pages 1 and 2 exist and page 3 does not. The fifth block that \<^verbatim>\<open>malloc\<close> returns,
  which is the name buffer of the second probe, comes back with a byte \<open>X\<close> in
  front, as a recycled block does that the allocator has written its own data to.
\<close>

definition recycled_world :: world where
  "recycled_world =
     \<lparr>files = map_of [(''./trace_map.csv'', ''d s\<newline>''), (''./d/s_1'', ''abcdefgh''),
                      (''./d/s_2'', ''ijklmnop'')],
      junk = (\<lambda>k j. if k = 4 \<and> j = 0 then CHR ''X'' else NUL)\<rparr>"

text \<open>A page file of 2 bytes; every block comes back with a byte \<open>Z\<close> at offset 3.\<close>

definition short_page_world :: world where
  "short_page_world =
     \<lparr>files = map_of [(''./trace_map.csv'', ''d s\<newline>''), (''./d/s_1'', ''ab'')],
      junk = (\<lambda>k j. if j = 3 then CHR ''Z'' else NUL)\<rparr>"



text \<open>Two records; the folder and the stem of the first have 60 bytes each.\<close>

abbreviation long_folder :: string where
  "long_folder \<equiv> ''aaaaaaaaaaaaaaaaaaaaaaaaaaaaaaaaaaaaaaaaaaaaaaaaaaaaaaaaaaaa''"

abbreviation long_stem :: string where
  "long_stem \<equiv> ''bbbbbbbbbbbbbbbbbbbbbbbbbbbbbbbbbbbbbbbbbbbbbbbbbbbbbbbbbbbb''"

abbreviation long_manifest :: string where
  "long_manifest \<equiv> long_folder @ '' '' @ long_stem @ ''\<newline>d s\<newline>''"

definition long_names_world :: world where
  "long_names_world =
     \<lparr>files = map_of [(''./trace_map.csv'', long_manifest)], junk = (\<lambda>k j. NUL)\<rparr>"

section \<open>Lemmas\<close>

subsection \<open>Termination\<close>

lemma decimal_bound: "n < 10 ^ length (decimal n)"
proof (induction n rule: decimal.induct)
  case (1 n)
  show ?case
  proof (cases "n < 10")
    case True
    then show ?thesis by (simp add: decimal.simps [of n])
  next
    case False
    with 1 have "n div 10 < 10 ^ length (decimal (n div 10))" by simp
    then have "n < 10 * 10 ^ length (decimal (n div 10))" by simp
    with False show ?thesis by (simp add: decimal.simps [of n])
  qed
qed

lemma sprintf_d_bound: "sprintf_d n = Inr x \<Longrightarrow> n < 1000000000"
proof -
  assume "sprintf_d n = Inr x"
  then have "length (decimal n) \<le> 9" by (simp add: sprintf_d_def split: if_splits)
  then have "(10::nat) ^ length (decimal n) \<le> 10 ^ 9" by (intro power_increasing) simp_all
  with decimal_bound [of n] show ?thesis by simp
qed

lemma build_name_bound: "build_name a b c n = Inr x \<Longrightarrow> n < 1000000000"
  by (auto simp: build_name_def split: sum.splits dest: sprintf_d_bound)

lemma probe_bound: "probe w folder file_format iter st = Inr (st', True) \<Longrightarrow> iter < 1000000000"
  by (auto simp: probe_def Let_def split: prod.splits sum.splits option.splits dest: build_name_bound)

termination scan
  by (relation "measure (\<lambda>(w, folder, file_format, iter, st). 1000000000 - iter)")
     (auto dest: probe_bound)

lemma token_step: "skip_space inp \<noteq> [] \<Longrightarrow> length (after_token (skip_space inp)) < length inp"
proof -
  assume a: "skip_space inp \<noteq> []"
  then obtain c r where cr: "skip_space inp = c # r" by (cases "skip_space inp") auto
  then have "\<not> isspace c" unfolding skip_space_def by (metis dropWhile_eq_Cons_conv)
  with cr have "after_token (skip_space inp) = after_token r" by (simp add: after_token_def)
  moreover have "length (after_token r) \<le> length r" by (simp add: after_token_def length_dropWhile_le)
  moreover have "length (skip_space inp) \<le> length inp" by (simp add: skip_space_def length_dropWhile_le)
  ultimately show ?thesis using cr by simp
qed

termination tokens
  by (relation "measure length") (auto dest: token_step)

declare scan.simps [simp del] tokens.simps [simp del]

subsection \<open>C strings\<close>

lemma cstr_append_NUL: "NUL \<notin> set s \<Longrightarrow> cstr (s @ NUL # r) = s"
  by (induction s) (auto simp: cstr_def)

lemma cstr_no_NUL: "NUL \<notin> set (cstr b)"
  by (auto simp: cstr_def dest: set_takeWhileD)

lemma cstr_lit: "NUL \<notin> set s \<Longrightarrow> cstr (lit s) = s"
  using cstr_append_NUL [of s "[]"] by (simp add: lit_def)

lemma NUL_in_lit: "NUL \<in> set (lit s)"
  by (simp add: lit_def)

lemma cstr_Nil: "cstr (NUL # r) = []"
  by (simp add: cstr_def)

lemma length_cstr_le: "length (cstr b) \<le> length b"
  by (simp add: cstr_def length_takeWhile_le)

lemma strcat_Inr:
  assumes "strcat dst src = Inr b"
  shows "cstr b = cstr dst @ cstr src" and "length b = length dst" and "NUL \<in> set b"
proof -
  from assms have fit: "length (cstr dst) + length (cstr src) + 1 \<le> length dst"
    and b: "b = cstr dst @ cstr src @ NUL # drop (length (cstr dst) + length (cstr src) + 1) dst"
    by (auto simp: strcat_def split: if_splits)
  have "NUL \<notin> set (cstr dst @ cstr src)" using cstr_no_NUL by simp
  then show "cstr b = cstr dst @ cstr src"
    using cstr_append_NUL [of "cstr dst @ cstr src"] b by simp
  show "length b = length dst" using fit b by simp
  show "NUL \<in> set b" using b by simp
qed

lemma strcat_ok:
  "NUL \<in> set dst \<Longrightarrow> NUL \<in> set src \<Longrightarrow> length (cstr dst) + length (cstr src) + 1 \<le> length dst
   \<Longrightarrow> \<exists>b. strcat dst src = Inr b"
  by (simp add: strcat_def)

lemma digit_no_NUL: "d < 10 \<Longrightarrow> digit d \<noteq> NUL"
proof -
  assume "d < 10"
  then have "digit d \<in> set ''0123456789''" unfolding digit_def by (intro nth_mem) simp
  then show ?thesis by auto
qed

lemma decimal_no_NUL: "NUL \<notin> set (decimal n)"
proof (induction n rule: decimal.induct)
  case (1 n)
  show ?case
  proof (cases "n < 10")
    case True
    then show ?thesis using digit_no_NUL [of n] by (simp add: decimal.simps [of n])
  next
    case False
    moreover have "digit (n mod 10) \<noteq> NUL" by (rule digit_no_NUL) simp
    ultimately show ?thesis using 1 by (simp add: decimal.simps [of n])
  qed
qed

lemma sprintf_d_Inr: "sprintf_d n = Inr x \<Longrightarrow> cstr x = decimal n \<and> NUL \<in> set x"
  by (auto simp: sprintf_d_def cstr_lit decimal_no_NUL NUL_in_lit split: if_splits)

lemma build_name_Inr:
  assumes "build_name fname folder file_format iter = Inr b"
  shows "cstr b = cstr fname @ ''./'' @ cstr folder @ ''/'' @ cstr file_format @ ''_'' @ decimal iter"
    and "length b = length fname" and "NUL \<in> set b"
proof -
  from assms obtain b1 b2 b3 b4 b5 x where
    s1: "strcat fname (lit ''./'') = Inr b1" and s2: "strcat b1 folder = Inr b2"
    and s3: "strcat b2 (lit ''/'') = Inr b3" and s4: "strcat b3 file_format = Inr b4"
    and s5: "strcat b4 (lit ''_'') = Inr b5" and s6: "sprintf_d iter = Inr x"
    and s7: "strcat b5 x = Inr b"
    by (auto simp: build_name_def split: sum.splits)
  have l1: "cstr (lit ''./'') = ''./''" and l2: "cstr (lit ''/'') = ''/''" and l3: "cstr (lit ''_'') = ''_''"
    by (simp_all add: cstr_lit)
  show "cstr b = cstr fname @ ''./'' @ cstr folder @ ''/'' @ cstr file_format @ ''_'' @ decimal iter"
    using strcat_Inr(1) [OF s1] strcat_Inr(1) [OF s2] strcat_Inr(1) [OF s3] strcat_Inr(1) [OF s4]
      strcat_Inr(1) [OF s5] strcat_Inr(1) [OF s7] sprintf_d_Inr [OF s6] l1 l2 l3
    by simp
  show "length b = length fname"
    using strcat_Inr(2) [OF s1] strcat_Inr(2) [OF s2] strcat_Inr(2) [OF s3] strcat_Inr(2) [OF s4]
      strcat_Inr(2) [OF s5] strcat_Inr(2) [OF s7]
    by simp
  show "NUL \<in> set b" using strcat_Inr(3) [OF s7] .
qed

lemma build_name_ok:
  assumes "NUL \<in> set fname" and "NUL \<in> set folder" and "NUL \<in> set file_format"
    and "length (decimal iter) \<le> 9"
    and "length (cstr fname) + length (cstr folder) + length (cstr file_format) + length (decimal iter) + 5
           \<le> length fname"
  shows "\<exists>b. build_name fname folder file_format iter = Inr b"
proof -
  have l1: "cstr (lit ''./'') = ''./''" and l2: "cstr (lit ''/'') = ''/''" and l3: "cstr (lit ''_'') = ''_''"
    by (simp_all add: cstr_lit)
  obtain b1 where s1: "strcat fname (lit ''./'') = Inr b1"
    using strcat_ok [of fname "lit ''./''"] assms l1 NUL_in_lit by auto
  note f1 = strcat_Inr [OF s1]
  obtain b2 where s2: "strcat b1 folder = Inr b2"
    using strcat_ok [of b1 folder] assms f1 l1 by auto
  note f2 = strcat_Inr [OF s2]
  obtain b3 where s3: "strcat b2 (lit ''/'') = Inr b3"
    using strcat_ok [of b2 "lit ''/''"] assms f1 f2 l1 l2 NUL_in_lit by auto
  note f3 = strcat_Inr [OF s3]
  obtain b4 where s4: "strcat b3 file_format = Inr b4"
    using strcat_ok [of b3 file_format] assms f1 f2 f3 l1 l2 by auto
  note f4 = strcat_Inr [OF s4]
  obtain b5 where s5: "strcat b4 (lit ''_'') = Inr b5"
    using strcat_ok [of b4 "lit ''_''"] assms f1 f2 f3 f4 l1 l2 l3 NUL_in_lit by auto
  note f5 = strcat_Inr [OF s5]
  have s6: "sprintf_d iter = Inr (lit (decimal iter))" using assms by (simp add: sprintf_d_def)
  have l4: "cstr (lit (decimal iter)) = decimal iter" by (simp add: cstr_lit decimal_no_NUL)
  obtain b where s7: "strcat b5 (lit (decimal iter)) = Inr b"
    using strcat_ok [of b5 "lit (decimal iter)"] assms f1 f2 f3 f4 f5 l1 l2 l3 l4 NUL_in_lit by auto
  show ?thesis using s1 s2 s3 s4 s5 s6 s7 by (simp add: build_name_def)
qed

subsection \<open>Allocation and the page read\<close>

lemma length_fresh: "length (fresh w k n) = n"
  by (simp add: fresh_def)

lemma fresh_nth: "j < n \<Longrightarrow> fresh w k n ! j = junk w k j"
  by (simp add: fresh_def)

lemma clear_page_eq: "clear_page n p st = (if n = 0 then p else None, st)"
  by (induction n arbitrary: p) auto

lemma fscanf_8192c_fresh:
  "fscanf_8192c c (fresh w k 8192) = Inr (take 8192 c @ drop (length (take 8192 c)) (fresh w k 8192))"
  by (simp add: fscanf_8192c_def length_fresh)

lemma fscanf_8192c_Inr:
  assumes "fscanf_8192c c page = Inr pg"
  shows "length pg = length page" and "take (length (take 8192 c)) pg = take 8192 c"
  using assms by (auto simp: fscanf_8192c_def min_def split: if_splits)

subsection \<open>Invariants of a run\<close>


lemma probe_elim:
  assumes "probe w fo ff i st = r"
  obtains (Fault) e st1 where "r = Inl (e, st1)" "stdout st1 = stdout st" "probes st1 = probes st"
      "reads st1 = reads st" "trace_file st1 = trace_file st"
      "allocs st \<le> allocs st1" "\<And>k. k < allocs st \<Longrightarrow> heap st1 k = heap st k"
      "name_block w fo ff i st = Inl e"
  | (Stop) b st' where "r = Inr (st', False)" "files w (cstr b) = None"
      "stdout st' = stdout st @ render (Absent (cstr b))" "probes st' = probes st @ [Absent (cstr b)]"
      "reads st' = reads st" "trace_file st' = trace_file st"
      "allocs st' = Suc (allocs st)" "\<And>k. k < allocs st \<Longrightarrow> heap st' k = heap st k"
      "name_block w fo ff i st = Inr b"
  | (Next) b c pg st' where "r = Inr (st', True)" "files w (cstr b) = Some c"
      "fscanf_8192c c (fresh w (Suc (allocs st)) 8192) = Inr pg"
      "stdout st' = stdout st @ render (Page (cstr b) pg)" "probes st' = probes st @ [Page (cstr b) pg]"
      "reads st' = reads st" "trace_file st' = trace_file st"
      "heap st' (Suc (allocs st)) = pg"
      "allocs st' = Suc (Suc (allocs st))" "\<And>k. k < allocs st \<Longrightarrow> heap st' k = heap st k"
      "name_block w fo ff i st = Inr b"
  using assms
  by (auto simp: probe_def malloc_def free_def printf_def clear_page_eq fscanf_8192c_fresh Let_def
      name_block_def split: sum.splits option.splits)

lemma kept_mono:
  assumes "kept w st e" and "allocs st \<le> allocs st'"
    and "\<And>k. 2 \<le> k \<Longrightarrow> k < allocs st \<Longrightarrow> heap st' k = heap st k"
  shows "kept w st' e"
proof (cases e)
  case (Absent p)
  then show ?thesis by simp
next
  case (Page p buf)
  with assms(1) obtain c k where c: "files w p = Some c" and "2 \<le> k" "k < allocs st"
    "heap st k = buf" "fscanf_8192c c (fresh w k 8192) = Inr buf"
    by (auto simp: list_ex_iff split: option.splits)
  with assms(2,3) have "2 \<le> k" "k < allocs st'" "heap st' k = buf"
    "fscanf_8192c c (fresh w k 8192) = Inr buf" by auto
  with Page c show ?thesis by (auto simp: list_ex_iff)
qed

lemma kept_all_mono:
  assumes "list_all (kept w st) es" and "allocs st \<le> allocs st'"
    and "\<And>k. 2 \<le> k \<Longrightarrow> k < allocs st \<Longrightarrow> heap st' k = heap st k"
  shows "list_all (kept w st') es"
  using assms kept_mono unfolding list_all_iff by blast

lemma inv_frame:
  assumes "inv w st" and "stdout st' = stdout st" and "probes st' = probes st"
    and "allocs st \<le> allocs st'" and "\<And>k. 2 \<le> k \<Longrightarrow> k < allocs st \<Longrightarrow> heap st' k = heap st k"
  shows "inv w st'"
  using assms kept_all_mono [of w st "probes st" st'] unfolding inv_def by auto

lemma probe_inv:
  assumes "inv w st" and "probe w fo ff i st = r"
  shows "inv w (case r of Inl (e, s) \<Rightarrow> s | Inr (s, keep) \<Rightarrow> s)"
  using assms(2)
proof (cases rule: probe_elim)
  case (Fault e st1)
  then show ?thesis using inv_frame [OF assms(1), of st1] by simp
next
  case (Stop b st')
  have "list_all (kept w st') (probes st)"
    using kept_all_mono [of w st "probes st" st'] assms(1) Stop unfolding inv_def by auto
  then show ?thesis using Stop assms(1) unfolding inv_def by simp
next
  case (Next b c pg st')
  have "list_all (kept w st') (probes st)"
    using kept_all_mono [of w st "probes st" st'] assms(1) Next unfolding inv_def by auto
  moreover have "kept w st' (Page (cstr b) pg)"
    using Next(2,3,8,9) assms(1) unfolding inv_def
    by (auto simp: list_ex_iff intro!: bexI [of _ "Suc (allocs st)"])
  moreover have "entry_ok w (Page (cstr b) pg)"
    using Next(2) fscanf_8192c_Inr [OF Next(3)] by (simp add: length_fresh)
  ultimately show ?thesis using Next assms(1) unfolding inv_def by simp
qed

lemma scan_inv: "inv w st \<Longrightarrow> inv w (state_of (scan w fo ff i st))"
proof (induction w fo ff i st rule: scan.induct)
  case (1 w fo ff i st)
  show ?case
  proof (cases "probe w fo ff i st")
    case (Inl x)
    then show ?thesis using probe_inv [OF "1.prems" Inl] by (simp add: scan.simps [of w fo ff i st] state_of_def)
  next
    case (Inr y)
    obtain st' keep where y: "y = (st', keep)" by (cases y)
    have i': "inv w st'" using probe_inv [OF "1.prems" Inr] y by simp
    show ?thesis
    proof (cases keep)
      case True
      then show ?thesis using "1.IH" [OF Inr y [symmetric] ] i' Inr y
        by (simp add: scan.simps [of w fo ff i st])
    next
      case False
      then show ?thesis using i' Inr y by (simp add: scan.simps [of w fo ff i st] state_of_def)
    qed
  qed
qed

lemma read_record_elim:
  assumes "read_record fo ff st = r"
  obtains (Fault) e where "r = Inl (e, st)"
  | (Read) n rest b1 b2 inp where "trace_file st = Some inp"
      "fscanf_ss inp (heap st fo) (heap st ff) = Inr (n, rest, b1, b2)"
      "r = Inr (st\<lparr>heap := (heap st)(fo := b1, ff := b2), trace_file := Some rest,
                   reads := reads st @ [(n, cstr b1, cstr b2)]\<rparr>)"
  using assms by (auto simp: read_record_def split: option.splits sum.splits)

lemma read_record_inv:
  assumes "inv w st" and "fo < 2" and "ff < 2"
  shows "inv w (state_of (read_record fo ff st))"
proof -
  obtain r where r: "read_record fo ff st = r" by simp
  then show ?thesis
  proof (cases rule: read_record_elim)
  case (Fault e)
  then show ?thesis using assms r by (simp add: state_of_def)
next
  case (Read n rest b1 b2 inp)
  then show ?thesis using assms r inv_frame [OF assms(1)] by (simp add: state_of_def)
qed
qed

lemma clear_names_elim:
  assumes "clear_names fo ff st = r"
  obtains (Fault) e where "r = Inl (e, st)"
  | (Clear) b1 b2 where "zero_fill 100 (heap st fo) = Inr b1" "zero_fill 100 (heap st ff) = Inr b2"
      "r = Inr (st\<lparr>heap := (heap st)(fo := b1, ff := b2)\<rparr>)"
  using assms by (auto simp: clear_names_def split: sum.splits)

lemma clear_names_inv:
  assumes "inv w st" and "fo < 2" and "ff < 2"
  shows "inv w (state_of (clear_names fo ff st))"
proof -
  obtain r where r: "clear_names fo ff st = r" by simp
  then show ?thesis
  proof (cases rule: clear_names_elim)
  case (Fault e)
  then show ?thesis using assms r by (simp add: state_of_def)
next
  case (Clear b1 b2)
  then show ?thesis using assms r inv_frame [OF assms(1)] by (simp add: state_of_def)
qed
qed

lemma state_of_Inr: "state_of (Inr st) = st"
  by (simp add: state_of_def)

lemma state_of_Inl: "state_of (Inl (e, st)) = st"
  by (simp add: state_of_def)

lemma iteration_inv:
  assumes "inv w st" and "fo < 2" and "ff < 2"
  shows "inv w (state_of (iteration w fo ff st))"
proof (cases "read_record fo ff st")
  case (Inl x)
  then show ?thesis using read_record_inv [OF assms] by (simp add: iteration_def)
next
  case r: (Inr st1)
  then have i1: "inv w st1" using read_record_inv [OF assms] by (simp add: state_of_Inr)
  show ?thesis
  proof (cases "scan w fo ff 1 st1")
    case (Inl x)
    then show ?thesis using scan_inv [OF i1, of fo ff 1] r by (simp add: iteration_def)
  next
    case (Inr st2)
    then have "inv w st2" using scan_inv [OF i1, of fo ff 1] by (simp add: state_of_Inr)
    then show ?thesis using clear_names_inv [of w st2 fo ff] assms r Inr by (simp add: iteration_def)
  qed
qed

lemma outer_inv:
  assumes "fo < 2" and "ff < 2"
  shows "inv w st \<Longrightarrow> inv w (state_of (outer w fo ff n st))"
proof (induction n arbitrary: st)
  case 0
  then show ?case by (simp add: state_of_Inr)
next
  case (Suc n)
  show ?case
  proof (cases "iteration w fo ff st")
    case (Inl x)
    then show ?thesis using iteration_inv [OF Suc.prems assms] by simp
  next
    case (Inr st')
    then have "inv w st'" using iteration_inv [OF Suc.prems assms] by (simp add: state_of_Inr)
    then show ?thesis using Suc.IH Inr by simp
  qed
qed

lemma main_unfold:
  "main w = (case outer w 0 1 400 (init w) of Inl x \<Rightarrow> Inl x | Inr st \<Rightarrow> Inr (0, free 0 (free 1 st)))"
  by (simp add: main_def malloc_def start_def init_def numeral_2_eq_2 split: sum.splits)

lemma inv_init: "inv w (init w)"
  by (simp add: inv_def init_def start_def)

lemma main_inv: "inv w (last_state (main w))"
proof (cases "outer w 0 1 400 (init w)")
  case (Inl x)
  then show ?thesis using outer_inv [of 0 1 w "init w" 400] inv_init
    by (cases x) (simp add: main_unfold last_state_def state_of_def)
next
  case (Inr st)
  then have "inv w st" using outer_inv [of 0 1 w "init w" 400] inv_init by (simp add: state_of_Inr)
  then have "inv w (free 0 (free 1 st))" by (rule inv_frame) (simp_all add: free_def)
  then show ?thesis using Inr by (simp add: main_unfold last_state_def)
qed

subsection \<open>Names and scans\<close>


lemma decimal_len: "n < 10 ^ k \<Longrightarrow> 0 < k \<Longrightarrow> length (decimal n) \<le> k"
proof (induction n arbitrary: k rule: decimal.induct)
  case (1 n)
  show ?case
  proof (cases "n < 10")
    case True
    then show ?thesis using "1.prems" by (simp add: decimal.simps [of n])
  next
    case False
    obtain j where k: "k = Suc j" using "1.prems" by (cases k) auto
    have "0 < j" using False "1.prems" k by (cases j) auto
    moreover have "n div 10 < 10 ^ j" using "1.prems" k by (simp add: less_mult_imp_div_less mult.commute)
    ultimately have "length (decimal (n div 10)) \<le> j" using "1.IH" False by simp
    then show ?thesis using False k by (simp add: decimal.simps [of n])
  qed
qed

lemma decimal_len9: "n < 1000000000 \<Longrightarrow> length (decimal n) \<le> 9"
  using decimal_len [of n 9] by simp

lemma fresh_clean:
  assumes "junk w k 0 = NUL"
  shows "cstr (fresh w k 100) = []" and "NUL \<in> set (fresh w k 100)"
proof -
  have "fresh w k 100 = junk w k 0 # map (junk w k) [1..<100]"
    by (simp add: fresh_def upt_conv_Cons)
  with assms show "cstr (fresh w k 100) = []" and "NUL \<in> set (fresh w k 100)"
    by (simp_all add: cstr_def)
qed

lemma name_block_Inr:
  assumes "name_block w fo ff i st = Inr b" and "fo < allocs st" and "ff < allocs st"
  shows "cstr b = cstr (fresh w (allocs st) 100) @ page_name (cstr (heap st fo)) (cstr (heap st ff)) i"
  using build_name_Inr(1) [of "fresh w (allocs st) 100" "heap st fo" "heap st ff" i b] assms
  by (simp add: name_block_def page_name_def)

lemma name_block_clean:
  assumes "junk w (allocs st) 0 = NUL" and "fo < allocs st" and "ff < allocs st"
    and "NUL \<in> set (heap st fo)" and "NUL \<in> set (heap st ff)"
    and "length (cstr (heap st fo)) + length (cstr (heap st ff)) + 14 \<le> 100"
    and "i < 1000000000"
  shows "\<exists>b. name_block w fo ff i st = Inr b
           \<and> cstr b = page_name (cstr (heap st fo)) (cstr (heap st ff)) i"
proof -
  have "\<exists>b. build_name (fresh w (allocs st) 100) (heap st fo) (heap st ff) i = Inr b"
    using assms fresh_clean [OF assms(1)] decimal_len9 [OF assms(7)]
    by (intro build_name_ok) (simp_all add: length_fresh)
  then obtain b where b: "name_block w fo ff i st = Inr b"
    using assms by (auto simp: name_block_def)
  then show ?thesis using name_block_Inr [OF b] assms fresh_clean [OF assms(1)] by simp
qed

text \<open>What a scan that returns has done, whatever the names were.\<close>

lemma scan_Inr:
  "scan w fo ff i st = Inr st' \<Longrightarrow>
     \<exists>ps p. probes st' = probes st @ ps @ [Absent p] \<and> list_all is_page ps
        \<and> stdout st' = stdout st @ concat (map render (ps @ [Absent p]))
        \<and> reads st' = reads st \<and> trace_file st' = trace_file st
        \<and> allocs st \<le> allocs st' \<and> (\<forall>k<allocs st. heap st' k = heap st k)"
proof (induction w fo ff i st rule: scan.induct)
  case (1 w fo ff i st)
  obtain r where r: "probe w fo ff i st = r" by simp
  then show ?case
  proof (cases rule: probe_elim)
    case (Fault e st1)
    then show ?thesis using "1.prems" r by (simp add: scan.simps [of w fo ff i st])
  next
    case (Stop b st1)
    then have "st' = st1" using "1.prems" r by (simp add: scan.simps [of w fo ff i st])
    then show ?thesis using Stop by (intro exI [of _ "[]"] exI [of _ "cstr b"]) simp
  next
    case (Next b c pg st1)
    then have sc: "scan w fo ff (i + 1) st1 = Inr st'"
      using "1.prems" r by (simp add: scan.simps [of w fo ff i st])
    have p1: "probe w fo ff i st = Inr (st1, True)" using r Next by simp
    from "1.IH" [OF p1 refl TrueI sc]
    obtain ps p where ps: "probes st' = probes st1 @ ps @ [Absent p]" "list_all is_page ps"
        "stdout st' = stdout st1 @ concat (map render (ps @ [Absent p]))"
        "reads st' = reads st1" "trace_file st' = trace_file st1"
        "allocs st1 \<le> allocs st'" "\<forall>k<allocs st1. heap st' k = heap st1 k"
      by auto
    show ?thesis using ps Next
      by (intro exI [of _ "Page (cstr b) pg # ps"] exI [of _ p]) simp
  qed
qed

text \<open>
  A scan whose name buffers come back from \<open>malloc\<close> with a NUL in front, on names
  that fit: \<open>q\<close> pages in a row and then a missing one.
\<close>

lemma scan_clean:
  assumes "\<forall>k\<ge>allocs st. junk w k 0 = NUL"
    and "fo < allocs st" and "ff < allocs st"
    and "NUL \<in> set (heap st fo)" and "NUL \<in> set (heap st ff)"
    and "cstr (heap st fo) = f" and "cstr (heap st ff) = s"
    and "length f + length s + 14 \<le> 100"
    and "\<forall>j. i \<le> j \<and> j < i + q \<longrightarrow> files w (page_name f s j) \<noteq> None"
    and "files w (page_name f s (i + q)) = None"
    and "i + q < 1000000000"
  shows "\<exists>st'. scan w fo ff i st = Inr st'
           \<and> map path_of (probes st') = map path_of (probes st) @ map (page_name f s) [i..<i + q + 1]
           \<and> map is_page (probes st') = map is_page (probes st) @ replicate q True @ [False]"
  using assms
proof (induction q arbitrary: i st)
  case 0
  obtain b where b: "name_block w fo ff i st = Inr b" "cstr b = page_name f s i"
    using name_block_clean [of w st fo ff i] 0 by auto
  obtain r where r: "probe w fo ff i st = r" by simp
  then show ?case
  proof (cases rule: probe_elim)
    case (Fault e st1)
    then show ?thesis using b by simp
  next
    case (Stop b' st1)
    then have "b' = b" using b by simp
    then show ?thesis using Stop r b by (simp add: scan.simps [of w fo ff i st])
  next
    case (Next b' c pg st1)
    then have "b' = b" using b by simp
    then show ?thesis using Next b 0 by simp
  qed
next
  case (Suc q)
  obtain b where b: "name_block w fo ff i st = Inr b" "cstr b = page_name f s i"
    using name_block_clean [of w st fo ff i] Suc.prems by auto
  obtain r where r: "probe w fo ff i st = r" by simp
  then show ?case
  proof (cases rule: probe_elim)
    case (Fault e st1)
    then show ?thesis using b by simp
  next
    case (Stop b' st1)
    then have "b' = b" using b by simp
    then have "files w (page_name f s i) = None" using Stop b by simp
    then show ?thesis using Suc.prems(9) by auto
  next
    case (Next b' c pg st1)
    then have bb: "b' = b" using b by simp
    have "\<exists>st'. scan w fo ff (Suc i) st1 = Inr st'
           \<and> map path_of (probes st') = map path_of (probes st1) @ map (page_name f s) [Suc i..<Suc i + q + 1]
           \<and> map is_page (probes st') = map is_page (probes st1) @ replicate q True @ [False]"
      using Suc.prems Next by (intro Suc.IH) auto
    then obtain st' where st': "scan w fo ff (Suc i) st1 = Inr st'"
      "map path_of (probes st') = map path_of (probes st1) @ map (page_name f s) [Suc i..<Suc i + q + 1]"
      "map is_page (probes st') = map is_page (probes st1) @ replicate q True @ [False]"
      by auto
    have "[i..<i + Suc q + 1] = i # [Suc i..<Suc i + q + 1]" by (simp add: upt_conv_Cons)
    then show ?thesis using st' Next r bb b by (simp add: scan.simps [of w fo ff i st])
  qed
qed


subsection \<open>Tokens and records\<close>

lemma tokens_Nil: "skip_space inp = [] \<Longrightarrow> tokens inp = []"
  by (simp add: tokens.simps [of inp])

lemma tokens_Cons:
  "skip_space inp \<noteq> [] \<Longrightarrow> tokens inp = token (skip_space inp) # tokens (after_token (skip_space inp))"
  by (simp add: tokens.simps [of inp])

lemma tokens_Nil_iff: "tokens inp = [] \<longleftrightarrow> skip_space inp = []"
  by (simp add: tokens.simps [of inp])

lemma set_skip_space: "set (skip_space inp) \<subseteq> set inp"
  by (auto simp: skip_space_def dest: set_dropWhileD)

lemma set_after_token: "set (after_token inp) \<subseteq> set inp"
  by (auto simp: after_token_def dest: set_dropWhileD)

lemma set_token: "set (token inp) \<subseteq> set inp"
  by (auto simp: token_def dest: set_takeWhileD)

lemma skip_space_Nil: "skip_space [] = []"
  by (simp add: skip_space_def)

lemma store_token_Inr:
  assumes "store_token t b = Inr b'" and "NUL \<notin> set t"
  shows "cstr b' = t" and "length b' = length b" and "NUL \<in> set b'"
  using assms cstr_append_NUL [of t] by (auto simp: store_token_def split: if_splits)

lemma fscanf_ss_eof: "skip_space inp = [] \<Longrightarrow> fscanf_ss inp a b = Inr (EOF, [], a, b)"
  by (simp add: fscanf_ss_def)

lemma fscanf_ss_two:
  assumes "tokens inp = t1 # t2 # ts" and "fscanf_ss inp a b = Inr (n, rest, a', b')"
  shows "n = 2" and "tokens rest = ts" and "store_token t1 a = Inr a'" and "store_token t2 b = Inr b'"
    and "set rest \<subseteq> set inp"
proof -
  have i1: "skip_space inp \<noteq> []" using assms(1) tokens_Nil [of inp] by auto
  then have t1: "t1 = token (skip_space inp)" and r1: "tokens (after_token (skip_space inp)) = t2 # ts"
    using assms(1) tokens_Cons [of inp] by auto
  have i2: "skip_space (after_token (skip_space inp)) \<noteq> []"
    using r1 tokens_Nil [of "after_token (skip_space inp)"] by auto
  then have t2: "t2 = token (skip_space (after_token (skip_space inp)))"
    and r2: "tokens (after_token (skip_space (after_token (skip_space inp)))) = ts"
    using r1 tokens_Cons [of "after_token (skip_space inp)"] by auto
  from assms(2) i1 i2 t1 t2
  have "n = 2 \<and> rest = after_token (skip_space (after_token (skip_space inp)))
        \<and> store_token t1 a = Inr a' \<and> store_token t2 b = Inr b'"
    by (auto simp: fscanf_ss_def Let_def split: sum.splits)
  then show "n = 2" and "tokens rest = ts" and "store_token t1 a = Inr a'" and "store_token t2 b = Inr b'"
    and "set rest \<subseteq> set inp"
    using r2 set_after_token set_skip_space by (auto, blast)
qed

lemma tokens_no_NUL: "NUL \<notin> set inp \<Longrightarrow> t \<in> set (tokens inp) \<Longrightarrow> NUL \<notin> set t"
proof (induction inp rule: tokens.induct)
  case (1 inp)
  show ?case
  proof (cases "skip_space inp = []")
    case True
    then show ?thesis using "1.prems" by (simp add: tokens_Nil)
  next
    case False
    have a: "NUL \<notin> set (skip_space inp)" using "1.prems"(1) set_skip_space by blast
    then have b: "NUL \<notin> set (after_token (skip_space inp))" using set_after_token by blast
    from "1.prems"(2) False
    consider "t = token (skip_space inp)" | "t \<in> set (tokens (after_token (skip_space inp)))"
      by (auto simp: tokens_Cons)
    then show ?thesis
    proof cases
      case 1
      then show ?thesis using a set_token by blast
    next
      case 2
      then show ?thesis using "1.IH" [OF False b] by simp
    qed
  qed
qed

subsection \<open>One turn of the outer loop\<close>

lemma zero_fill_zeroed: "zero_fill 100 b = Inr b' \<Longrightarrow> zeroed b'"
proof -
  assume "zero_fill 100 b = Inr b'"
  then have b': "b' = replicate 100 NUL @ drop 100 b" and l: "100 \<le> length b"
    by (auto simp: zero_fill_def split: if_splits)
  have "replicate 100 NUL = NUL # replicate 99 NUL" by (simp add: numeral_eq_Suc)
  then have "b' = NUL # replicate 99 NUL @ drop 100 b" using b' by simp
  then have "cstr b' = []" and "NUL \<in> set b'" by (simp_all add: cstr_def)
  moreover have "length b' = length b" using b' l by simp
  ultimately show ?thesis using l by (simp add: zeroed_def)
qed

lemma iteration_Inr:
  assumes "iteration w fo ff st = Inr st'"
  obtains n rest b1 b2 inp ps p where "trace_file st = Some inp"
    "fscanf_ss inp (heap st fo) (heap st ff) = Inr (n, rest, b1, b2)"
    "reads st' = reads st @ [(n, cstr b1, cstr b2)]" "trace_file st' = Some rest"
    "probes st' = probes st @ ps @ [Absent p]" "list_all is_page ps"
    "stdout st' = stdout st @ concat (map render (ps @ [Absent p]))"
    "allocs st \<le> allocs st'" "zeroed (heap st' fo)" "zeroed (heap st' ff)"
proof -
  from assms obtain st1 st2 where r: "read_record fo ff st = Inr st1"
    and s: "scan w fo ff 1 st1 = Inr st2" and c: "clear_names fo ff st2 = Inr st'"
    by (auto simp: iteration_def split: sum.splits)
  from r obtain n rest b1 b2 inp where rr: "trace_file st = Some inp"
    "fscanf_ss inp (heap st fo) (heap st ff) = Inr (n, rest, b1, b2)"
    "st1 = st\<lparr>heap := (heap st)(fo := b1, ff := b2), trace_file := Some rest,
                reads := reads st @ [(n, cstr b1, cstr b2)]\<rparr>"
    by (cases rule: read_record_elim) auto
  from scan_Inr [OF s] obtain ps p where sc: "probes st2 = probes st1 @ ps @ [Absent p]"
    "list_all is_page ps" "stdout st2 = stdout st1 @ concat (map render (ps @ [Absent p]))"
    "reads st2 = reads st1" "trace_file st2 = trace_file st1" "allocs st1 \<le> allocs st2"
    by auto
  from c obtain z1 z2 where cl: "zero_fill 100 (heap st2 fo) = Inr z1" "zero_fill 100 (heap st2 ff) = Inr z2"
    "st' = st2\<lparr>heap := (heap st2)(fo := z1, ff := z2)\<rparr>"
    by (cases rule: clear_names_elim) auto
  have "zeroed (heap st' fo)" "zeroed (heap st' ff)"
    using cl zero_fill_zeroed [OF cl(1)] zero_fill_zeroed [OF cl(2)] by auto
  then show ?thesis using that [of inp n rest b1 b2 ps p] rr sc cl by simp
qed



lemma outer_records:
  assumes "outer w fo ff n st = Inr st'" and "trace_file st = Some inp" and "NUL \<notin> set inp"
    and "even (length (tokens inp))"
  shows "\<exists>E rest. reads st' = reads st @ map yielded (take n (pairs (tokens inp))) @ E
           \<and> length E = n - length (pairs (tokens inp)) \<and> list_all (\<lambda>r. fst r = EOF) E
           \<and> trace_file st' = Some rest \<and> tokens rest = drop (2 * n) (tokens inp)
           \<and> allocs st \<le> allocs st' \<and> (0 < n \<longrightarrow> zeroed (heap st' fo) \<and> zeroed (heap st' ff))
           \<and> absent_count st' = absent_count st + n"
  using assms
proof (induction n arbitrary: st inp)
  case 0
  then show ?case by simp
next
  case (Suc n)
  from Suc.prems(1) obtain st1 where it: "iteration w fo ff st = Inr st1"
    and ou: "outer w fo ff n st1 = Inr st'"
    by (auto split: sum.splits)
  from it obtain k rest b1 b2 inp' ps p where f: "trace_file st = Some inp'"
    "fscanf_ss inp' (heap st fo) (heap st ff) = Inr (k, rest, b1, b2)"
    "reads st1 = reads st @ [(k, cstr b1, cstr b2)]" "trace_file st1 = Some rest"
    "probes st1 = probes st @ ps @ [Absent p]" "list_all is_page ps"
    "allocs st \<le> allocs st1" "zeroed (heap st1 fo)" "zeroed (heap st1 ff)"
    by (rule iteration_Inr)
  have inp': "inp' = inp" using f(1) Suc.prems(2) by simp
  have ac: "absent_count st1 = absent_count st + 1"
    using f(5,6) by (simp add: absent_count_def list_all_iff)
  have keep0: "n = 0 \<Longrightarrow> st' = st1" using ou by simp
  show ?case
  proof (cases "tokens inp")
    case Nil
    then have sk: "skip_space inp = []" by (simp add: tokens_Nil_iff)
    then have e: "k = EOF" "rest = []" using f(2) inp' by (simp_all add: fscanf_ss_eof)
    then have tr: "tokens rest = []" by (simp add: tokens_Nil skip_space_Nil)
    from Suc.IH [OF ou f(4)] e tr
    obtain E rest' where ih: "reads st' = reads st1 @ E" "length E = n" "list_all (\<lambda>r. fst r = EOF) E"
      "trace_file st' = Some rest'" "tokens rest' = []" "allocs st1 \<le> allocs st'"
      "0 < n \<longrightarrow> zeroed (heap st' fo) \<and> zeroed (heap st' ff)"
      "absent_count st' = absent_count st1 + n"
      by auto
    have z: "zeroed (heap st' fo) \<and> zeroed (heap st' ff)"
      using ih(7) keep0 f(8,9) by (cases n) auto
    show ?thesis
      using ih f(3,7) e Nil ac z
      by (intro exI [of _ "(EOF, cstr b1, cstr b2) # E"] exI [of _ rest']) simp
  next
    case (Cons t1 r1)
    then obtain t2 ts where ts: "tokens inp = t1 # t2 # ts"
      using Suc.prems(4) by (cases r1) auto
    note two = fscanf_ss_two [OF ts f(2) [unfolded inp']]
    have n1: "NUL \<notin> set t1" and n2: "NUL \<notin> set t2"
      using tokens_no_NUL [OF Suc.prems(3)] ts by auto
    have c: "cstr b1 = t1" "cstr b2 = t2"
      using store_token_Inr(1) [OF two(3) n1] store_token_Inr(1) [OF two(4) n2] by auto
    have nr: "NUL \<notin> set rest" using two(5) Suc.prems(3) by blast
    have ev: "even (length (tokens rest))" using two(2) ts Suc.prems(4) by simp
    from Suc.IH [OF ou f(4) nr ev] two(2)
    obtain E rest' where ih: "reads st' = reads st1 @ map yielded (take n (pairs ts)) @ E"
      "length E = n - length (pairs ts)" "list_all (\<lambda>r. fst r = EOF) E"
      "trace_file st' = Some rest'" "tokens rest' = drop (2 * n) ts" "allocs st1 \<le> allocs st'"
      "0 < n \<longrightarrow> zeroed (heap st' fo) \<and> zeroed (heap st' ff)"
      "absent_count st' = absent_count st1 + n"
      by auto
    have z: "zeroed (heap st' fo) \<and> zeroed (heap st' ff)"
      using ih(7) keep0 f(8,9) by (cases n) auto
    show ?thesis
      using ih f(3,7) two(1) c ts ac z
      by (intro exI [of _ E] exI [of _ rest']) (simp add: yielded_def)
  qed
qed


subsection \<open>The turns after the end of the manifest\<close>

lemma iteration_drained:
  assumes "drained st" and "\<forall>k\<ge>allocs st. junk w k 0 = NUL"
    and "\<forall>j. 1 \<le> j \<and> j < 1 + q \<longrightarrow> files w (page_name [] [] j) \<noteq> None"
    and "files w (page_name [] [] (1 + q)) = None" and "1 + q < 1000000000"
  shows "\<exists>st' ps. iteration w 0 1 st = Inr st' \<and> drained st'
           \<and> reads st' = reads st @ [(EOF, [], [])]
           \<and> probes st' = probes st @ ps \<and> stdout st' = stdout st @ concat (map render ps)
           \<and> map path_of ps = map (page_name [] []) [1..<q + 2]
           \<and> map is_page ps = replicate q True @ [False]
           \<and> allocs st \<le> allocs st'"
proof -
  from assms(1) obtain inp where inp: "trace_file st = Some inp" "skip_space inp = []"
    and z: "zeroed (heap st 0)" "zeroed (heap st 1)" and a: "2 \<le> allocs st"
    by (auto simp: drained_def split: option.splits)
  define st1 where "st1 = st\<lparr>trace_file := Some [], reads := reads st @ [(EOF, [], [])]\<rparr>"
  have r: "read_record 0 1 st = Inr st1"
    using inp z by (simp add: read_record_def fscanf_ss_eof st1_def zeroed_def)
  have "\<exists>st'. scan w 0 1 1 st1 = Inr st'
           \<and> map path_of (probes st') = map path_of (probes st1) @ map (page_name [] []) [1..<1 + q + 1]
           \<and> map is_page (probes st') = map is_page (probes st1) @ replicate q True @ [False]"
    using assms z a by (intro scan_clean) (auto simp: st1_def zeroed_def)
  then obtain st2 where s: "scan w 0 1 1 st1 = Inr st2"
    and pa: "map path_of (probes st2) = map path_of (probes st1) @ map (page_name [] []) [1..<1 + q + 1]"
    and pg: "map is_page (probes st2) = map is_page (probes st1) @ replicate q True @ [False]"
    by auto
  from scan_Inr [OF s] obtain ps p where sc: "probes st2 = probes st1 @ ps @ [Absent p]"
    "stdout st2 = stdout st1 @ concat (map render (ps @ [Absent p]))"
    "reads st2 = reads st1" "trace_file st2 = trace_file st1" "allocs st1 \<le> allocs st2"
    "\<forall>k<allocs st1. heap st2 k = heap st1 k"
    by auto
  have h: "heap st2 0 = heap st 0" "heap st2 1 = heap st 1"
    using sc(6) a by (simp_all add: st1_def)
  obtain z1 z2 where zf: "zero_fill 100 (heap st2 0) = Inr z1" "zero_fill 100 (heap st2 1) = Inr z2"
    using h z by (auto simp: zero_fill_def zeroed_def)
  define st' where "st' = st2\<lparr>heap := (heap st2)(0 := z1, 1 := z2)\<rparr>"
  have c: "clear_names 0 1 st2 = Inr st'" using zf by (simp add: clear_names_def st'_def)
  have it: "iteration w 0 1 st = Inr st'" using r s c by (simp add: iteration_def)
  have d: "drained st'"
    using zero_fill_zeroed [OF zf(1)] zero_fill_zeroed [OF zf(2)] sc(4,5) a
    by (simp add: drained_def st'_def st1_def skip_space_Nil)
  have "map path_of (ps @ [Absent p]) = map (page_name [] []) [1..<q + 2]"
    and "map is_page (ps @ [Absent p]) = replicate q True @ [False]"
    using pa pg sc(1) by simp_all
  then show ?thesis
    using it d sc a
    by (intro exI [of _ st'] exI [of _ "ps @ [Absent p]"]) (simp add: st'_def st1_def)
qed

lemma outer_drained:
  assumes "drained st" and "\<forall>k\<ge>allocs st. junk w k 0 = NUL"
    and "\<forall>j. 1 \<le> j \<and> j < 1 + q \<longrightarrow> files w (page_name [] [] j) \<noteq> None"
    and "files w (page_name [] [] (1 + q)) = None" and "1 + q < 1000000000"
  shows "\<exists>st' ps. outer w 0 1 n st = Inr st' \<and> drained st'
           \<and> reads st' = reads st @ replicate n (EOF, [], [])
           \<and> probes st' = probes st @ ps \<and> stdout st' = stdout st @ concat (map render ps)
           \<and> map path_of ps = concat (replicate n (map (page_name [] []) [1..<q + 2]))
           \<and> map is_page ps = concat (replicate n (replicate q True @ [False]))"
  using assms(1,2)
proof (induction n arbitrary: st)
  case 0
  then show ?case by simp
next
  case (Suc n)
  from iteration_drained [OF Suc.prems assms(3,4,5)]
  obtain st1 ps1 where i: "iteration w 0 1 st = Inr st1" "drained st1"
    "reads st1 = reads st @ [(EOF, [], [])]"
    "probes st1 = probes st @ ps1" "stdout st1 = stdout st @ concat (map render ps1)"
    "map path_of ps1 = map (page_name [] []) [1..<q + 2]"
    "map is_page ps1 = replicate q True @ [False]" "allocs st \<le> allocs st1"
    by blast
  have "\<forall>k\<ge>allocs st1. junk w k 0 = NUL" using Suc.prems(2) i(8) by auto
  from Suc.IH [OF i(2) this]
  obtain st' ps where o: "outer w 0 1 n st1 = Inr st'" "drained st'"
    "reads st' = reads st1 @ replicate n (EOF, [], [])"
    "probes st' = probes st1 @ ps" "stdout st' = stdout st1 @ concat (map render ps)"
    "map path_of ps = concat (replicate n (map (page_name [] []) [1..<q + 2]))"
    "map is_page ps = concat (replicate n (replicate q True @ [False]))"
    by blast
  show ?case
    using i o
    by (intro exI [of _ st'] exI [of _ "ps1 @ ps"]) (simp add: replicate_app_Cons_same)
qed

lemma outer_add:
  "outer w fo ff (m + n) st = (case outer w fo ff m st of Inl x \<Rightarrow> Inl x | Inr st' \<Rightarrow> outer w fo ff n st')"
  by (induction m arbitrary: st) (auto split: sum.splits)

lemma absent_replicate:
  "map path_of ps = replicate n p \<Longrightarrow> map is_page ps = replicate n False \<Longrightarrow> ps = replicate n (Absent p)"
proof (induction ps arbitrary: n)
  case Nil
  then show ?case by simp
next
  case (Cons e ps)
  then obtain m where n: "n = Suc m" by (cases n) auto
  with Cons.prems have "path_of e = p" "\<not> is_page e" by auto
  then have "e = Absent p" by (cases e) auto
  then show ?case using Cons n by simp
qed

lemma concat_replicate_single: "concat (replicate n [x]) = replicate n x"
  by (induction n) auto

lemma decimal_small: "n < 10 \<Longrightarrow> decimal n = [digit n]"
  by (simp add: decimal.simps [of n])



lemma fscanf_ss_two_ok:
  assumes "tokens inp = t1 # t2 # ts" and "length t1 + 1 \<le> length a" and "length t2 + 1 \<le> length b"
  shows "\<exists>rest a' b'. fscanf_ss inp a b = Inr (2, rest, a', b')"
proof -
  have i1: "skip_space inp \<noteq> []" using assms(1) tokens_Nil [of inp] by auto
  then have t1: "t1 = token (skip_space inp)" and r1: "tokens (after_token (skip_space inp)) = t2 # ts"
    using assms(1) tokens_Cons [of inp] by auto
  have i2: "skip_space (after_token (skip_space inp)) \<noteq> []"
    using r1 tokens_Nil [of "after_token (skip_space inp)"] by auto
  then have t2: "t2 = token (skip_space (after_token (skip_space inp)))"
    using r1 tokens_Cons [of "after_token (skip_space inp)"] by auto
  show ?thesis using i1 i2 t1 t2 assms(2,3) by (simp add: fscanf_ss_def Let_def store_token_def)
qed

text \<open>
  A turn of the loop that reads a record from the manifest, on name buffers that come
  back from \<open>malloc\<close> with a NUL in front and names that fit: \<open>q\<close> pages in a
  row and then a missing one.
\<close>

lemma iteration_record:
  assumes "trace_file st = Some inp" and "tokens inp = f # s # ts" and "NUL \<notin> set inp"
    and "length (heap st 0) = 100" and "length (heap st 1) = 100" and "2 \<le> allocs st"
    and "length f + length s + 14 \<le> 100"
    and "\<forall>k\<ge>allocs st. junk w k 0 = NUL"
    and "\<forall>j. 1 \<le> j \<and> j < 1 + q \<longrightarrow> files w (page_name f s j) \<noteq> None"
    and "files w (page_name f s (1 + q)) = None" and "1 + q < 1000000000"
  shows "\<exists>st' ps rest. iteration w 0 1 st = Inr st' \<and> reads st' = reads st @ [(2, f, s)]
           \<and> trace_file st' = Some rest \<and> tokens rest = ts \<and> set rest \<subseteq> set inp
           \<and> probes st' = probes st @ ps \<and> stdout st' = stdout st @ concat (map render ps)
           \<and> map path_of ps = map (page_name f s) [1..<q + 2]
           \<and> map is_page ps = replicate q True @ [False]
           \<and> zeroed (heap st' 0) \<and> zeroed (heap st' 1)
           \<and> length (heap st' 0) = 100 \<and> length (heap st' 1) = 100 \<and> allocs st \<le> allocs st'"
proof -
  obtain rest b1 b2 where fs: "fscanf_ss inp (heap st 0) (heap st 1) = Inr (2, rest, b1, b2)"
    using fscanf_ss_two_ok [OF assms(2), of "heap st 0" "heap st 1"] assms(4,5,7) by auto
  note two = fscanf_ss_two [OF assms(2) fs]
  have n1: "NUL \<notin> set f" and n2: "NUL \<notin> set s"
    using tokens_no_NUL [OF assms(3)] assms(2) by auto
  note s1 = store_token_Inr [OF two(3) n1] and s2 = store_token_Inr [OF two(4) n2]
  define st1 where "st1 = st\<lparr>heap := (heap st)(0 := b1, 1 := b2), trace_file := Some rest,
                reads := reads st @ [(2, cstr b1, cstr b2)]\<rparr>"
  have r: "read_record 0 1 st = Inr st1"
    using assms(1) fs by (simp add: read_record_def st1_def)
  have "\<exists>st'. scan w 0 1 1 st1 = Inr st'
           \<and> map path_of (probes st') = map path_of (probes st1) @ map (page_name f s) [1..<1 + q + 1]
           \<and> map is_page (probes st') = map is_page (probes st1) @ replicate q True @ [False]"
    using assms s1 s2 by (intro scan_clean) (auto simp: st1_def)
  then obtain st2 where sc0: "scan w 0 1 1 st1 = Inr st2"
    and pa: "map path_of (probes st2) = map path_of (probes st1) @ map (page_name f s) [1..<1 + q + 1]"
    and pg: "map is_page (probes st2) = map is_page (probes st1) @ replicate q True @ [False]"
    by auto
  from scan_Inr [OF sc0] obtain ps p where sc: "probes st2 = probes st1 @ ps @ [Absent p]"
    "stdout st2 = stdout st1 @ concat (map render (ps @ [Absent p]))"
    "reads st2 = reads st1" "trace_file st2 = trace_file st1" "allocs st1 \<le> allocs st2"
    "\<forall>k<allocs st1. heap st2 k = heap st1 k"
    by auto
  have h: "heap st2 0 = b1" "heap st2 1 = b2"
    using sc(6) assms(6) by (simp_all add: st1_def)
  have l: "length b1 = 100" "length b2 = 100" using s1(2) s2(2) assms(4,5) by simp_all
  obtain z1 z2 where zf: "zero_fill 100 (heap st2 0) = Inr z1" "zero_fill 100 (heap st2 1) = Inr z2"
    using h l by (auto simp: zero_fill_def)
  have lz: "length z1 = 100" "length z2 = 100"
    using zf h l by (auto simp: zero_fill_def)
  define st' where "st' = st2\<lparr>heap := (heap st2)(0 := z1, 1 := z2)\<rparr>"
  have c: "clear_names 0 1 st2 = Inr st'" using zf by (simp add: clear_names_def st'_def)
  have it: "iteration w 0 1 st = Inr st'" using r sc0 c by (simp add: iteration_def)
  have "map path_of (ps @ [Absent p]) = map (page_name f s) [1..<q + 2]"
    and "map is_page (ps @ [Absent p]) = replicate q True @ [False]"
    using pa pg sc(1) by simp_all
  then show ?thesis
    using it sc s1(1) s2(1) two(2,5) lz zero_fill_zeroed [OF zf(1)] zero_fill_zeroed [OF zf(2)]
    by (intro exI [of _ st'] exI [of _ "ps @ [Absent p]"] exI [of _ rest]) (simp add: st'_def st1_def)
qed


lemma probe_absent:
  assumes "name_block w fo ff i st = Inr b" and "files w (cstr b) = None"
  shows "\<exists>st'. probe w fo ff i st = Inr (st', False) \<and> probes st' = probes st @ [Absent (cstr b)]
           \<and> stdout st' = stdout st @ render (Absent (cstr b))
           \<and> reads st' = reads st \<and> trace_file st' = trace_file st
           \<and> allocs st' = Suc (allocs st) \<and> (\<forall>k<allocs st. heap st' k = heap st k)"
proof -
  obtain r where r: "probe w fo ff i st = r" by simp
  from r show ?thesis using assms r by (cases rule: probe_elim) auto
qed

lemma probe_page:
  assumes "name_block w fo ff i st = Inr b" and "files w (cstr b) = Some c"
  shows "\<exists>st' pg. probe w fo ff i st = Inr (st', True) \<and> probes st' = probes st @ [Page (cstr b) pg]
           \<and> stdout st' = stdout st @ render (Page (cstr b) pg)
           \<and> reads st' = reads st \<and> trace_file st' = trace_file st
           \<and> allocs st' = Suc (Suc (allocs st)) \<and> (\<forall>k<allocs st. heap st' k = heap st k)"
proof -
  obtain r where r: "probe w fo ff i st = r" by simp
  from r show ?thesis using assms r by (cases rule: probe_elim) auto
qed

lemma probe_fault:
  assumes "name_block w fo ff i st = Inl e"
  shows "\<exists>st1. probe w fo ff i st = Inl (e, st1) \<and> probes st1 = probes st
           \<and> stdout st1 = stdout st \<and> reads st1 = reads st"
proof -
  obtain r where r: "probe w fo ff i st = r" by simp
  from r show ?thesis using assms r by (cases rule: probe_elim) auto
qed

subsection \<open>Whole runs\<close>

lemma init_simps:
  "trace_file (init w) = files w ''./trace_map.csv''" "allocs (init w) = 2"
  "heap (init w) 0 = fresh w 0 100" "heap (init w) 1 = fresh w 1 100"
  "heap (init w) (Suc 0) = fresh w 1 100"
  "stdout (init w) = []" "reads (init w) = []" "probes (init w) = []"
  by (simp_all add: init_def start_def)

lemma free_simps:
  "stdout (free p st) = stdout st" "reads (free p st) = reads st" "probes (free p st) = probes st"
  "allocs (free p st) = allocs st" "trace_file (free p st) = trace_file st"
  by (simp_all add: free_def)

text \<open>
  A manifest of one record, name buffers that come back from \<open>malloc\<close> with a NUL in
  front: \<open>q1\<close> pages for the record, and \<open>q\<close> pages for the empty names of each of the
  399 turns that follow.
\<close>

lemma single_record_run:
  assumes "files w ''./trace_map.csv'' = Some inp" and "tokens inp = [f, s]" and "NUL \<notin> set inp"
    and "length f + length s + 14 \<le> 100"
    and "\<forall>k\<ge>2. junk w k 0 = NUL"
    and "\<forall>j. 1 \<le> j \<and> j < 1 + q1 \<longrightarrow> files w (page_name f s j) \<noteq> None"
    and "files w (page_name f s (1 + q1)) = None" and "1 + q1 < 1000000000"
    and "\<forall>j. 1 \<le> j \<and> j < 1 + q \<longrightarrow> files w (page_name [] [] j) \<noteq> None"
    and "files w (page_name [] [] (1 + q)) = None" and "1 + q < 1000000000"
  shows "\<exists>st ps1 ps. main w = Inr (0, st) \<and> reads st = (2, f, s) # replicate 399 (EOF, [], [])
           \<and> probes st = ps1 @ ps \<and> stdout st = concat (map render (ps1 @ ps))
           \<and> map path_of ps1 = map (page_name f s) [1..<q1 + 2]
           \<and> map is_page ps1 = replicate q1 True @ [False]
           \<and> map path_of ps = concat (replicate 399 (map (page_name [] []) [1..<q + 2]))
           \<and> map is_page ps = concat (replicate 399 (replicate q True @ [False]))"
proof -
  have "\<exists>st' ps rest. iteration w 0 1 (init w) = Inr st' \<and> reads st' = reads (init w) @ [(2, f, s)]
           \<and> trace_file st' = Some rest \<and> tokens rest = [] \<and> set rest \<subseteq> set inp
           \<and> probes st' = probes (init w) @ ps \<and> stdout st' = stdout (init w) @ concat (map render ps)
           \<and> map path_of ps = map (page_name f s) [1..<q1 + 2]
           \<and> map is_page ps = replicate q1 True @ [False]
           \<and> zeroed (heap st' 0) \<and> zeroed (heap st' 1)
           \<and> length (heap st' 0) = 100 \<and> length (heap st' 1) = 100 \<and> allocs (init w) \<le> allocs st'"
    using assms by (intro iteration_record [where inp = inp]) (simp_all add: init_simps length_fresh)
  then obtain st1 ps1 rest where i: "iteration w 0 1 (init w) = Inr st1" "reads st1 = [(2, f, s)]"
    "trace_file st1 = Some rest" "tokens rest = []" "probes st1 = ps1"
    "stdout st1 = concat (map render ps1)" "map path_of ps1 = map (page_name f s) [1..<q1 + 2]"
    "map is_page ps1 = replicate q1 True @ [False]" "zeroed (heap st1 0)" "zeroed (heap st1 1)"
    "2 \<le> allocs st1"
    by (auto simp: init_simps)
  have d: "drained st1" using i by (simp add: drained_def tokens_Nil_iff)
  have c: "\<forall>k\<ge>allocs st1. junk w k 0 = NUL" using assms(5) i(11) by auto
  from outer_drained [OF d c assms(9,10,11), of 399]
  obtain st2 ps where o: "outer w 0 1 399 st1 = Inr st2"
    "reads st2 = reads st1 @ replicate 399 (EOF, [], [])"
    "probes st2 = probes st1 @ ps" "stdout st2 = stdout st1 @ concat (map render ps)"
    "map path_of ps = concat (replicate 399 (map (page_name [] []) [1..<q + 2]))"
    "map is_page ps = concat (replicate 399 (replicate q True @ [False]))"
    by blast
  have "outer w 0 1 (1 + 399) (init w) = Inr st2"
    using i(1) o(1) by (simp only: outer_add) simp
  then have "main w = Inr (0, free 0 (free 1 st2))" by (simp add: main_unfold)
  then show ?thesis
    using i o
    by (intro exI [of _ "free 0 (free 1 st2)"] exI [of _ ps1] exI [of _ ps]) (simp add: free_simps)
qed


subsection \<open>The runs in the worlds of the claims\<close>

lemma tokens_d_s: "tokens ''d s\<newline>'' = [''d'', ''s'']"
  by (simp add: tokens_Cons tokens_Nil skip_space_def token_def after_token_def isspace_def)




lemma root_name_2: "page_name [] [] 2 = ''.//_2''"
  by (simp add: page_name_def decimal_small digit_def)

lemma probes_one:
  "map path_of ps = [a] \<Longrightarrow> map is_page ps = [False] \<Longrightarrow> ps = [Absent a]"
  using absent_replicate [of ps 1 a] by (simp add: numeral_eq_Suc)

lemma probes_two:
  assumes "map path_of ps = [a, b]" and "map is_page ps = [True, False]"
  shows "\<exists>pg. ps = [Page a pg, Absent b]"
proof -
  from assms(1) obtain e1 e2 where ps: "ps = [e1, e2]" by auto
  with assms have "path_of e1 = a" "is_page e1" "path_of e2 = b" "\<not> is_page e2" by auto
  then have "(\<exists>pg. e1 = Page a pg) \<and> e2 = Absent b" by (cases e1; cases e2) auto
  with ps show ?thesis by auto
qed

lemma upt_1_2: "[1..<2] = [1::nat]"
  by (simp add: upt_conv_Cons)

lemma upt_1_3: "[1..<3] = [1, 2::nat]"
  by (simp add: upt_conv_Cons)

lemmas name_eval = page_name_def decimal_small digit_def

lemma bare_run:
  "\<exists>st. main bare_world = Inr (0, st) \<and> reads st = (2, ''d'', ''s'') # replicate 399 (EOF, [], [])
      \<and> probes st = Absent ''./d/s_1'' # replicate 399 (Absent ''.//_1'')
      \<and> stdout st = concat (map render (probes st))"
proof -
  have "\<exists>st ps1 ps. main bare_world = Inr (0, st)
           \<and> reads st = (2, ''d'', ''s'') # replicate 399 (EOF, [], [])
           \<and> probes st = ps1 @ ps \<and> stdout st = concat (map render (ps1 @ ps))
           \<and> map path_of ps1 = map (page_name ''d'' ''s'') [1..<0 + 2]
           \<and> map is_page ps1 = replicate 0 True @ [False]
           \<and> map path_of ps = concat (replicate 399 (map (page_name [] []) [1..<0 + 2]))
           \<and> map is_page ps = concat (replicate 399 (replicate 0 True @ [False]))"
    by (rule single_record_run [where inp = "''d s\<newline>''"])
       (simp_all add: bare_world_def tokens_d_s name_eval)
  then obtain st ps1 ps where r: "main bare_world = Inr (0, st)"
    "reads st = (2, ''d'', ''s'') # replicate 399 (EOF, [], [])"
    "probes st = ps1 @ ps" "stdout st = concat (map render (ps1 @ ps))"
    and m: "map path_of ps1 = map (page_name ''d'' ''s'') [1..<0 + 2]"
    "map is_page ps1 = replicate 0 True @ [False]"
    "map path_of ps = concat (replicate 399 (map (page_name [] []) [1..<0 + 2]))"
    "map is_page ps = concat (replicate 399 (replicate 0 True @ [False]))"
    by blast
  have e: "map path_of ps1 = [''./d/s_1'']" "map is_page ps1 = [False]"
    "map path_of ps = replicate 399 ''.//_1''" "map is_page ps = replicate 399 False"
    using m by (simp_all add: upt_1_2 name_eval concat_replicate_single)
  have "ps1 = [Absent ''./d/s_1'']" using probes_one [OF e(1,2)] .
  moreover have "ps = replicate 399 (Absent ''.//_1'')" using absent_replicate [OF e(3,4)] .
  ultimately show ?thesis using r by auto
qed

lemma demo_run:
  "\<exists>st pg. main demo_world = Inr (0, st) \<and> reads st = (2, ''d'', ''s'') # replicate 399 (EOF, [], [])
      \<and> probes st = Page ''./d/s_1'' pg # Absent ''./d/s_2'' # replicate 399 (Absent ''.//_1'')
      \<and> stdout st = concat (map render (probes st))"
proof -
  have "\<exists>st ps1 ps. main demo_world = Inr (0, st)
           \<and> reads st = (2, ''d'', ''s'') # replicate 399 (EOF, [], [])
           \<and> probes st = ps1 @ ps \<and> stdout st = concat (map render (ps1 @ ps))
           \<and> map path_of ps1 = map (page_name ''d'' ''s'') [1..<1 + 2]
           \<and> map is_page ps1 = replicate 1 True @ [False]
           \<and> map path_of ps = concat (replicate 399 (map (page_name [] []) [1..<0 + 2]))
           \<and> map is_page ps = concat (replicate 399 (replicate 0 True @ [False]))"
  proof (rule single_record_run [where inp = "''d s\<newline>''"])
    show "\<forall>j. 1 \<le> j \<and> j < 1 + 1 \<longrightarrow> files demo_world (page_name ''d'' ''s'' j) \<noteq> None"
    proof (intro allI impI)
      fix j :: nat
      assume "1 \<le> j \<and> j < 1 + 1"
      then have "j = 1" by simp
      then show "files demo_world (page_name ''d'' ''s'' j) \<noteq> None"
        by (simp add: demo_world_def name_eval)
    qed
  qed (simp_all add: demo_world_def tokens_d_s name_eval)
  then obtain st ps1 ps where r: "main demo_world = Inr (0, st)"
    "reads st = (2, ''d'', ''s'') # replicate 399 (EOF, [], [])"
    "probes st = ps1 @ ps" "stdout st = concat (map render (ps1 @ ps))"
    and m: "map path_of ps1 = map (page_name ''d'' ''s'') [1..<1 + 2]"
    "map is_page ps1 = replicate 1 True @ [False]"
    "map path_of ps = concat (replicate 399 (map (page_name [] []) [1..<0 + 2]))"
    "map is_page ps = concat (replicate 399 (replicate 0 True @ [False]))"
    by blast
  have e: "map path_of ps1 = [''./d/s_1'', ''./d/s_2'']" "map is_page ps1 = [True, False]"
    "map path_of ps = replicate 399 ''.//_1''" "map is_page ps = replicate 399 False"
    using m by (simp_all add: upt_1_2 upt_1_3 name_eval concat_replicate_single)
  obtain pg where "ps1 = [Page ''./d/s_1'' pg, Absent ''./d/s_2'']" using probes_two [OF e(1,2)] by auto
  moreover have "ps = replicate 399 (Absent ''.//_1'')" using absent_replicate [OF e(3,4)] .
  ultimately show ?thesis using r by auto
qed


subsection \<open>Names that do not fit, and turns around a given scan\<close>

lemma length_cstr_less: "NUL \<in> set b \<Longrightarrow> length (cstr b) < length b"
  unfolding cstr_def by (induction b) auto

lemma decimal_not_Nil: "decimal n \<noteq> []"
  by (simp add: decimal.simps [of n])

lemma build_name_Inl: "build_name a b c n = Inl e \<Longrightarrow> e = OutOfBounds"
  by (cases e) (auto simp: build_name_def strcat_def sprintf_d_def split: sum.splits if_splits)

lemma build_name_too_long:
  assumes "length fname \<le> length (cstr folder) + length (cstr file_format) + 5"
  shows "build_name fname folder file_format iter = Inl OutOfBounds"
proof (cases "build_name fname folder file_format iter")
  case (Inl e)
  then show ?thesis using build_name_Inl by blast
next
  case (Inr b)
  note f = build_name_Inr [OF Inr]
  have "1 \<le> length (decimal iter)" using decimal_not_Nil [of iter] by (cases "decimal iter") auto
  moreover have "length (cstr b) = length (cstr fname) + length (cstr folder)
      + length (cstr file_format) + length (decimal iter) + 4"
    using f(1) by simp
  ultimately have "length (cstr folder) + length (cstr file_format) + 5 \<le> length (cstr b)"
    by simp
  moreover have "length (cstr b) < length b" using f(3) by (rule length_cstr_less)
  ultimately show ?thesis using f(2) assms by simp
qed

lemma read_record_two:
  assumes "trace_file st = Some inp" and "tokens inp = f # s # ts" and "NUL \<notin> set inp"
    and "length (heap st 0) = 100" and "length (heap st 1) = 100"
    and "length f < 100" and "length s < 100"
  shows "\<exists>st1 rest. read_record 0 1 st = Inr st1 \<and> reads st1 = reads st @ [(2, f, s)]
           \<and> trace_file st1 = Some rest \<and> tokens rest = ts
           \<and> cstr (heap st1 0) = f \<and> cstr (heap st1 1) = s
           \<and> NUL \<in> set (heap st1 0) \<and> NUL \<in> set (heap st1 1)
           \<and> length (heap st1 0) = 100 \<and> length (heap st1 1) = 100
           \<and> allocs st1 = allocs st \<and> probes st1 = probes st \<and> stdout st1 = stdout st"
proof -
  obtain rest b1 b2 where fs: "fscanf_ss inp (heap st 0) (heap st 1) = Inr (2, rest, b1, b2)"
    using fscanf_ss_two_ok [OF assms(2), of "heap st 0" "heap st 1"] assms(4,5,6,7) by auto
  note two = fscanf_ss_two [OF assms(2) fs]
  have n1: "NUL \<notin> set f" and n2: "NUL \<notin> set s"
    using tokens_no_NUL [OF assms(3)] assms(2) by auto
  note s1 = store_token_Inr [OF two(3) n1] and s2 = store_token_Inr [OF two(4) n2]
  define st1 where "st1 = st\<lparr>heap := (heap st)(0 := b1, 1 := b2), trace_file := Some rest,
                reads := reads st @ [(2, cstr b1, cstr b2)]\<rparr>"
  have r: "read_record 0 1 st = Inr st1"
    using assms(1) fs by (simp add: read_record_def st1_def)
  show ?thesis
    using r s1 s2 two(2) assms(4,5)
    by (intro exI [of _ st1] exI [of _ rest]) (simp add: st1_def)
qed

lemma clear_names_ok:
  assumes "length (heap st 0) = 100" and "length (heap st 1) = 100"
  shows "\<exists>st'. clear_names 0 1 st = Inr st' \<and> zeroed (heap st' 0) \<and> zeroed (heap st' 1)
           \<and> allocs st' = allocs st \<and> probes st' = probes st \<and> stdout st' = stdout st
           \<and> reads st' = reads st \<and> trace_file st' = trace_file st"
proof -
  obtain z1 z2 where zf: "zero_fill 100 (heap st 0) = Inr z1" "zero_fill 100 (heap st 1) = Inr z2"
    using assms by (auto simp: zero_fill_def)
  define st' where "st' = st\<lparr>heap := (heap st)(0 := z1, 1 := z2)\<rparr>"
  have "clear_names 0 1 st = Inr st'" using zf by (simp add: clear_names_def st'_def)
  then show ?thesis
    using zero_fill_zeroed [OF zf(1)] zero_fill_zeroed [OF zf(2)]
    by (intro exI [of _ st']) (simp add: st'_def)
qed

text \<open>A turn of the loop that reads a record, around a scan that is given.\<close>

lemma iteration_with_scan:
  assumes "trace_file st = Some inp" and "tokens inp = f # s # ts" and "NUL \<notin> set inp"
    and "length (heap st 0) = 100" and "length (heap st 1) = 100" and "2 \<le> allocs st"
    and "length f < 100" and "length s < 100"
    and scan: "\<And>st1. \<lbrakk>cstr (heap st1 0) = f; cstr (heap st1 1) = s; NUL \<in> set (heap st1 0);
                  NUL \<in> set (heap st1 1); allocs st1 = allocs st; probes st1 = probes st\<rbrakk>
             \<Longrightarrow> \<exists>st2 ps. scan w 0 1 1 st1 = Inr st2 \<and> probes st2 = probes st1 @ ps \<and> Q ps
                    \<and> A \<le> allocs st2"
  shows "\<exists>st' ps rest. iteration w 0 1 st = Inr st' \<and> reads st' = reads st @ [(2, f, s)]
           \<and> trace_file st' = Some rest \<and> tokens rest = ts
           \<and> probes st' = probes st @ ps \<and> Q ps
           \<and> stdout st' = stdout st @ concat (map render ps)
           \<and> zeroed (heap st' 0) \<and> zeroed (heap st' 1) \<and> A \<le> allocs st' \<and> 2 \<le> allocs st'"
proof -
  from read_record_two [OF assms(1,2,3,4,5,7,8)]
  obtain st1 rest where r: "read_record 0 1 st = Inr st1" "reads st1 = reads st @ [(2, f, s)]"
    "trace_file st1 = Some rest" "tokens rest = ts" "cstr (heap st1 0) = f" "cstr (heap st1 1) = s"
    "NUL \<in> set (heap st1 0)" "NUL \<in> set (heap st1 1)"
    "length (heap st1 0) = 100" "length (heap st1 1) = 100"
    "allocs st1 = allocs st" "probes st1 = probes st" "stdout st1 = stdout st"
    by blast
  from scan [OF r(5,6,7,8,11,12)]
  obtain st2 ps where s: "scan w 0 1 1 st1 = Inr st2" "probes st2 = probes st1 @ ps" "Q ps"
    "A \<le> allocs st2"
    by blast
  from scan_Inr [OF s(1)] obtain ps' p where sc: "probes st2 = probes st1 @ ps' @ [Absent p]"
    "stdout st2 = stdout st1 @ concat (map render (ps' @ [Absent p]))"
    "reads st2 = reads st1" "trace_file st2 = trace_file st1" "allocs st1 \<le> allocs st2"
    "\<forall>k<allocs st1. heap st2 k = heap st1 k"
    by auto
  have ps: "ps = ps' @ [Absent p]" using s(2) sc(1) by simp
  have h: "heap st2 0 = heap st1 0" "heap st2 1 = heap st1 1"
    using sc(6) r(11) assms(6) by simp_all
  from clear_names_ok [of st2] h r(9,10)
  obtain st' where c: "clear_names 0 1 st2 = Inr st'" "zeroed (heap st' 0)" "zeroed (heap st' 1)"
    "allocs st' = allocs st2" "probes st' = probes st2" "stdout st' = stdout st2"
    "reads st' = reads st2" "trace_file st' = trace_file st2"
    by auto
  have it: "iteration w 0 1 st = Inr st'" using r(1) s(1) c(1) by (simp add: iteration_def)
  show ?thesis
    using it r s sc c ps assms(6)
    by (intro exI [of _ st'] exI [of _ ps] exI [of _ rest]) simp
qed

subsection \<open>Facts about the log, and the runs in the worlds of the claims\<close>

lemma bare_facts:
  "exit_status (main bare_world) = Some 0"
  "reads (last_state (main bare_world)) = (2, ''d'', ''s'') # replicate 399 (EOF, [], [])"
  "probes (last_state (main bare_world)) = Absent ''./d/s_1'' # replicate 399 (Absent ''.//_1'')"
  using bare_run by (auto simp: exit_status_def last_state_def)

lemma demo_facts:
  "exit_status (main demo_world) = Some 0"
  "reads (last_state (main demo_world)) = (2, ''d'', ''s'') # replicate 399 (EOF, [], [])"
  "map path_of (probes (last_state (main demo_world))) = ''./d/s_1'' # ''./d/s_2'' # replicate 399 ''.//_1''"
  "map is_page (probes (last_state (main demo_world))) = True # False # replicate 399 False"
  using demo_run by (auto simp: exit_status_def last_state_def)

lemma entry_ok_offset3:
  assumes "entry_ok w (Page p buf)" and "files w p = Some c" and "4 \<le> length c"
  shows "buf ! 3 = c ! 3"
proof -
  from assms have t: "take (length (take 8192 c)) buf = take 8192 c" by simp
  have "3 < length (take 8192 c)" using assms(3) by simp
  then have "take (length (take 8192 c)) buf ! 3 = buf ! 3" by (intro nth_take)
  moreover have "take 8192 c ! 3 = c ! 3" by simp
  ultimately show ?thesis using t by simp
qed

lemma entry_ok_offset3_of_file: "entry_ok w e \<Longrightarrow> offset3_of_file w e"
proof (cases e)
  case (Absent p)
  then show ?thesis by simp
next
  case (Page p buf)
  assume "entry_ok w e"
  then show ?thesis using Page entry_ok_offset3 [of w p buf] by (auto split: option.splits)
qed

lemma entry_ok_report: "entry_ok w e \<Longrightarrow> render e = report w e"
proof (cases e)
  case (Absent p)
  then show ?thesis by simp
next
  case (Page p buf)
  assume "entry_ok w e"
  then show ?thesis using Page entry_ok_offset3 [of w p buf] by (auto split: option.splits)
qed

lemma demo_probes:
  "probes (last_state (main demo_world)) =
     Page ''./d/s_1'' (buffer_of (hd (probes (last_state (main demo_world)))))
       # Absent ''./d/s_2'' # replicate 399 (Absent ''.//_1'')"
  using demo_run by (auto simp: last_state_def)

lemma concat_report_absent:
  "concat (map (report w) (replicate n (Absent p))) = concat (replicate n (p @ '' \<newline>''))"
  by (induction n) auto

lemma concat_render_absent:
  "concat (map render (replicate n (Absent p))) = concat (replicate n (p @ '' \<newline>''))"
  by (induction n) auto

lemma records_d_s: "records_of ''d s\<newline>'' = [(''d'', ''s'')]"
  by (simp add: records_of_def tokens_d_s)

lemma main_Inr:
  assumes "main w = Inr (status, st)"
  obtains st3 where "outer w 0 1 400 (init w) = Inr st3" "st = free 0 (free 1 st3)" "status = 0"
  using assms by (auto simp: main_unfold split: sum.splits)



lemma short_run:
  "\<exists>st pg. main short_page_world = Inr (0, st)
      \<and> probes st = Page ''./d/s_1'' pg # Absent ''./d/s_2'' # replicate 399 (Absent ''.//_1'')
      \<and> stdout st = concat (map render (probes st))"
proof -
  have "\<exists>st ps1 ps. main short_page_world = Inr (0, st)
           \<and> reads st = (2, ''d'', ''s'') # replicate 399 (EOF, [], [])
           \<and> probes st = ps1 @ ps \<and> stdout st = concat (map render (ps1 @ ps))
           \<and> map path_of ps1 = map (page_name ''d'' ''s'') [1..<1 + 2]
           \<and> map is_page ps1 = replicate 1 True @ [False]
           \<and> map path_of ps = concat (replicate 399 (map (page_name [] []) [1..<0 + 2]))
           \<and> map is_page ps = concat (replicate 399 (replicate 0 True @ [False]))"
  proof (rule single_record_run [where inp = "''d s\<newline>''"])
    show "\<forall>j. 1 \<le> j \<and> j < 1 + 1 \<longrightarrow> files short_page_world (page_name ''d'' ''s'' j) \<noteq> None"
    proof (intro allI impI)
      fix j :: nat
      assume "1 \<le> j \<and> j < 1 + 1"
      then have "j = 1" by simp
      then show "files short_page_world (page_name ''d'' ''s'' j) \<noteq> None"
        by (simp add: short_page_world_def name_eval)
    qed
  qed (simp_all add: short_page_world_def tokens_d_s name_eval)
  then obtain st ps1 ps where r: "main short_page_world = Inr (0, st)"
    "probes st = ps1 @ ps" "stdout st = concat (map render (ps1 @ ps))"
    and m: "map path_of ps1 = map (page_name ''d'' ''s'') [1..<1 + 2]"
    "map is_page ps1 = replicate 1 True @ [False]"
    "map path_of ps = concat (replicate 399 (map (page_name [] []) [1..<0 + 2]))"
    "map is_page ps = concat (replicate 399 (replicate 0 True @ [False]))"
    by blast
  have e: "map path_of ps1 = [''./d/s_1'', ''./d/s_2'']" "map is_page ps1 = [True, False]"
    "map path_of ps = replicate 399 ''.//_1''" "map is_page ps = replicate 399 False"
    using m by (simp_all add: upt_1_2 upt_1_3 name_eval concat_replicate_single)
  obtain pg where "ps1 = [Page ''./d/s_1'' pg, Absent ''./d/s_2'']" using probes_two [OF e(1,2)] by auto
  moreover have "ps = replicate 399 (Absent ''.//_1'')" using absent_replicate [OF e(3,4)] .
  ultimately show ?thesis using r by auto
qed

lemma short_page_byte:
  assumes "fscanf_8192c ''ab'' (fresh short_page_world k 8192) = Inr pg"
  shows "pg ! 3 = CHR ''Z''"
proof -
  have "pg = ''ab'' @ drop 2 (fresh short_page_world k 8192)"
    using assms by (auto simp: fscanf_8192c_def length_fresh numeral_2_eq_2)
  then have "pg ! 3 = fresh short_page_world k 8192 ! 3"
    by (simp add: nth_append length_fresh numeral_3_eq_3)
  then show ?thesis by (simp add: fresh_nth short_page_world_def)
qed

lemma fresh_recycled:
  "cstr (fresh recycled_world 4 100) = ''X''" "NUL \<in> set (fresh recycled_world 4 100)"
proof -
  have "[0..<100] = 0 # [Suc 0..<100]" by (rule upt_conv_Cons) simp
  moreover have "[Suc 0..<100] = Suc 0 # [Suc (Suc 0)..<100]" by (rule upt_conv_Cons) simp
  ultimately have "fresh recycled_world 4 100 =
      junk recycled_world 4 0 # junk recycled_world 4 (Suc 0)
        # map (junk recycled_world 4) [Suc (Suc 0)..<100]"
    by (simp add: fresh_def)
  then show "cstr (fresh recycled_world 4 100) = ''X''" "NUL \<in> set (fresh recycled_world 4 100)"
    by (simp_all add: cstr_def recycled_world_def)
qed

lemma recycled_scan:
  assumes "cstr (heap st1 0) = ''d''" and "cstr (heap st1 1) = ''s''"
    and "NUL \<in> set (heap st1 0)" and "NUL \<in> set (heap st1 1)" and "allocs st1 = 2"
  shows "\<exists>st2 ps. scan recycled_world 0 1 1 st1 = Inr st2 \<and> probes st2 = probes st1 @ ps
           \<and> (map path_of ps = [''./d/s_1'', ''X./d/s_2''] \<and> map is_page ps = [True, False])
           \<and> 5 \<le> allocs st2"
proof -
  obtain b1 where b1: "name_block recycled_world 0 1 1 st1 = Inr b1"
    "cstr b1 = page_name (cstr (heap st1 0)) (cstr (heap st1 1)) 1"
    using name_block_clean [of recycled_world st1 0 1 1] assms by (auto simp: recycled_world_def)
  have n1: "cstr b1 = ''./d/s_1''" using b1(2) assms by (simp add: name_eval)
  then have "files recycled_world (cstr b1) = Some ''abcdefgh''" by (simp add: recycled_world_def)
  from probe_page [OF b1(1) this]
  obtain st2 pg where p1: "probe recycled_world 0 1 1 st1 = Inr (st2, True)"
    "probes st2 = probes st1 @ [Page (cstr b1) pg]" "allocs st2 = Suc (Suc (allocs st1))"
    "\<forall>k<allocs st1. heap st2 k = heap st1 k"
    by blast
  have a2: "allocs st2 = 4" using p1(3) assms(5) by simp
  have h2: "heap st2 0 = heap st1 0" "heap st2 1 = heap st1 1" using p1(4) assms(5) by simp_all
  have "\<exists>b. build_name (fresh recycled_world 4 100) (heap st2 0) (heap st2 1) 2 = Inr b"
    using assms h2 fresh_recycled
    by (intro build_name_ok) (simp_all add: length_fresh decimal_small)
  then obtain b2 where b2: "name_block recycled_world 0 1 2 st2 = Inr b2"
    using a2 by (auto simp: name_block_def)
  have n2: "cstr b2 = ''X./d/s_2''"
    using name_block_Inr [OF b2] a2 h2 assms fresh_recycled by (simp add: name_eval)
  then have "files recycled_world (cstr b2) = None" by (simp add: recycled_world_def)
  from probe_absent [OF b2 this]
  obtain st3 where p2: "probe recycled_world 0 1 2 st2 = Inr (st3, False)"
    "probes st3 = probes st2 @ [Absent (cstr b2)]" "allocs st3 = Suc (allocs st2)"
    by blast
  have s2: "scan recycled_world 0 1 2 st2 = Inr st3"
    by (subst scan.simps) (use p2(1) in simp)
  have "scan recycled_world 0 1 1 st1 = Inr st3"
    by (subst scan.simps) (use p1(1) s2 in \<open>simp add: numeral_2_eq_2\<close>)
  then show ?thesis
    using p1(2) p2(2,3) a2 n1 n2
    by (intro exI [of _ st3] exI [of _ "[Page (cstr b1) pg, Absent (cstr b2)]"]) simp
qed

lemma recycled_run:
  "exit_status (main recycled_world) = Some 0
   \<and> map path_of (probes (last_state (main recycled_world))) =
       ''./d/s_1'' # ''X./d/s_2'' # replicate 399 ''.//_1''
   \<and> map is_page (probes (last_state (main recycled_world))) = True # False # replicate 399 False"
proof -
  have "\<exists>st' ps rest. iteration recycled_world 0 1 (init recycled_world) = Inr st'
           \<and> reads st' = reads (init recycled_world) @ [(2, ''d'', ''s'')]
           \<and> trace_file st' = Some rest \<and> tokens rest = []
           \<and> probes st' = probes (init recycled_world) @ ps
           \<and> (map path_of ps = [''./d/s_1'', ''X./d/s_2''] \<and> map is_page ps = [True, False])
           \<and> stdout st' = stdout (init recycled_world) @ concat (map render ps)
           \<and> zeroed (heap st' 0) \<and> zeroed (heap st' 1) \<and> 5 \<le> allocs st' \<and> 2 \<le> allocs st'"
  proof (rule iteration_with_scan [where inp = "''d s\<newline>''"])
    fix st1 :: state
    assume "cstr (heap st1 0) = ''d''" "cstr (heap st1 1) = ''s''" "NUL \<in> set (heap st1 0)"
      "NUL \<in> set (heap st1 1)" "allocs st1 = allocs (init recycled_world)"
    then show "\<exists>st2 ps. scan recycled_world 0 1 1 st1 = Inr st2 \<and> probes st2 = probes st1 @ ps
        \<and> (map path_of ps = [''./d/s_1'', ''X./d/s_2''] \<and> map is_page ps = [True, False])
        \<and> 5 \<le> allocs st2"
      by (intro recycled_scan) (simp_all add: init_simps)
  qed (simp_all add: init_simps length_fresh tokens_d_s recycled_world_def)
  then obtain st1 ps1 rest where i: "iteration recycled_world 0 1 (init recycled_world) = Inr st1"
    "trace_file st1 = Some rest" "tokens rest = []" "probes st1 = ps1"
    "map path_of ps1 = [''./d/s_1'', ''X./d/s_2'']" "map is_page ps1 = [True, False]"
    "zeroed (heap st1 0)" "zeroed (heap st1 1)" "5 \<le> allocs st1"
    by (auto simp: init_simps)
  have d: "drained st1" using i by (simp add: drained_def tokens_Nil_iff)
  have c: "\<forall>k\<ge>allocs st1. junk recycled_world k 0 = NUL" using i(9) by (simp add: recycled_world_def)
  have "\<exists>st' ps. outer recycled_world 0 1 399 st1 = Inr st' \<and> drained st'
           \<and> reads st' = reads st1 @ replicate 399 (EOF, [], [])
           \<and> probes st' = probes st1 @ ps \<and> stdout st' = stdout st1 @ concat (map render ps)
           \<and> map path_of ps = concat (replicate 399 (map (page_name [] []) [1..<0 + 2]))
           \<and> map is_page ps = concat (replicate 399 (replicate 0 True @ [False]))"
    by (intro outer_drained [OF d c]) (simp_all add: recycled_world_def name_eval)
  then obtain st2 ps where o: "outer recycled_world 0 1 399 st1 = Inr st2" "probes st2 = probes st1 @ ps"
    and m: "map path_of ps = concat (replicate 399 (map (page_name [] []) [1..<0 + 2]))"
    "map is_page ps = concat (replicate 399 (replicate 0 True @ [False]))"
    by blast
  have m': "map path_of ps = replicate 399 ''.//_1''" "map is_page ps = replicate 399 False"
    using m by (simp_all add: upt_1_2 name_eval concat_replicate_single)
  have "outer recycled_world 0 1 (1 + 399) (init recycled_world) = Inr st2"
    using i(1) o(1) by (simp only: outer_add) simp
  then have "main recycled_world = Inr (0, free 0 (free 1 st2))" by (simp add: main_unfold)
  then show ?thesis
    using i(4,5,6) o(2) m' by (simp add: exit_status_def last_state_def free_simps)
qed

lemma count_pages: "length (filter is_page ps) = length (filter (\<lambda>b. b) (map is_page ps))"
  by (induction ps) auto

lemma tokens_long:
  "tokens long_manifest = [long_folder, long_stem, ''d'', ''s'']"
  by (simp add: tokens_Cons tokens_Nil skip_space_def token_def after_token_def isspace_def)

lemma long_names_run:
  "fault_of (main long_names_world) = Some OutOfBounds
   \<and> exit_status (main long_names_world) = None
   \<and> reads (last_state (main long_names_world)) = [(2, long_folder, long_stem)]
   \<and> probes (last_state (main long_names_world)) = []"
proof -
  define w where "w = long_names_world"
  have t: "trace_file (init w) = Some long_manifest"
    by (simp add: init_simps w_def long_names_world_def)
  have "\<exists>st1 rest. read_record 0 1 (init w) = Inr st1
           \<and> reads st1 = reads (init w) @ [(2, long_folder, long_stem)]
           \<and> trace_file st1 = Some rest \<and> tokens rest = [''d'', ''s'']
           \<and> cstr (heap st1 0) = long_folder \<and> cstr (heap st1 1) = long_stem
           \<and> NUL \<in> set (heap st1 0) \<and> NUL \<in> set (heap st1 1)
           \<and> length (heap st1 0) = 100 \<and> length (heap st1 1) = 100
           \<and> allocs st1 = allocs (init w) \<and> probes st1 = probes (init w)
           \<and> stdout st1 = stdout (init w)"
    by (rule read_record_two [OF t tokens_long]) (simp_all add: init_simps length_fresh)
  then obtain st1 where r: "read_record 0 1 (init w) = Inr st1" "reads st1 = [(2, long_folder, long_stem)]"
    "cstr (heap st1 0) = long_folder" "cstr (heap st1 1) = long_stem" "allocs st1 = 2" "probes st1 = []"
    by (auto simp: init_simps)
  have "name_block w 0 1 1 st1 = Inl OutOfBounds"
    unfolding name_block_def using r(3,4,5)
    by (simp add: build_name_too_long length_fresh)
  from probe_fault [OF this]
  obtain st2 where p: "probe w 0 1 1 st1 = Inl (OutOfBounds, st2)" "probes st2 = probes st1"
    "reads st2 = reads st1"
    by blast
  have "scan w 0 1 1 st1 = Inl (OutOfBounds, st2)"
    by (subst scan.simps) (use p(1) in simp)
  then have "iteration w 0 1 (init w) = Inl (OutOfBounds, st2)"
    using r(1) by (simp add: iteration_def)
  then have "outer w 0 1 (Suc 399) (init w) = Inl (OutOfBounds, st2)"
    by (simp only: outer.simps) simp
  then have "main w = Inl (OutOfBounds, st2)" by (simp add: main_unfold)
  then show ?thesis
    using p r by (simp add: w_def fault_of_def exit_status_def last_state_def)
qed

lemma probes_three:
  assumes "map path_of ps = [a, b, c]" and "map is_page ps = [True, True, False]"
  shows "\<exists>pg1 pg2. ps = [Page a pg1, Page b pg2, Absent c]"
proof -
  from assms(1) obtain e1 e2 e3 where ps: "ps = [e1, e2, e3]" by auto
  with assms have "path_of e1 = a" "is_page e1" "path_of e2 = b" "is_page e2"
    "path_of e3 = c" "\<not> is_page e3"
    by auto
  then have "(\<exists>pg. e1 = Page a pg) \<and> (\<exists>pg. e2 = Page b pg) \<and> e3 = Absent c"
    by (cases e1; cases e2; cases e3) auto
  with ps show ?thesis by auto
qed

lemma upt_1_4: "[1..<4] = [1, 2, 3::nat]"
  by (simp add: upt_conv_Cons)

lemma two_page_run:
  "\<exists>st pg1 pg2. main two_page_world = Inr (0, st)
      \<and> probes st = Page ''./d/s_1'' pg1 # Page ''./d/s_2'' pg2 # Absent ''./d/s_3''
                      # replicate 399 (Absent ''.//_1'')"
proof -
  have "\<exists>st ps1 ps. main two_page_world = Inr (0, st)
           \<and> reads st = (2, ''d'', ''s'') # replicate 399 (EOF, [], [])
           \<and> probes st = ps1 @ ps \<and> stdout st = concat (map render (ps1 @ ps))
           \<and> map path_of ps1 = map (page_name ''d'' ''s'') [1..<2 + 2]
           \<and> map is_page ps1 = replicate 2 True @ [False]
           \<and> map path_of ps = concat (replicate 399 (map (page_name [] []) [1..<0 + 2]))
           \<and> map is_page ps = concat (replicate 399 (replicate 0 True @ [False]))"
  proof (rule single_record_run [where inp = "''d s\<newline>''"])
    show "\<forall>j. 1 \<le> j \<and> j < 1 + 2 \<longrightarrow> files two_page_world (page_name ''d'' ''s'' j) \<noteq> None"
    proof (intro allI impI)
      fix j :: nat
      assume "1 \<le> j \<and> j < 1 + 2"
      then have "j = 1 \<or> j = 2" by auto
      then show "files two_page_world (page_name ''d'' ''s'' j) \<noteq> None"
        by (auto simp: two_page_world_def name_eval)
    qed
  qed (simp_all add: two_page_world_def tokens_d_s name_eval)
  then obtain st ps1 ps where r: "main two_page_world = Inr (0, st)" "probes st = ps1 @ ps"
    and m: "map path_of ps1 = map (page_name ''d'' ''s'') [1..<2 + 2]"
    "map is_page ps1 = replicate 2 True @ [False]"
    "map path_of ps = concat (replicate 399 (map (page_name [] []) [1..<0 + 2]))"
    "map is_page ps = concat (replicate 399 (replicate 0 True @ [False]))"
    by blast
  have e: "map path_of ps1 = [''./d/s_1'', ''./d/s_2'', ''./d/s_3'']"
    "map is_page ps1 = [True, True, False]"
    "map path_of ps = replicate 399 ''.//_1''" "map is_page ps = replicate 399 False"
    using m by (simp_all add: upt_1_2 upt_1_4 name_eval concat_replicate_single numeral_2_eq_2)
  obtain pg1 pg2 where "ps1 = [Page ''./d/s_1'' pg1, Page ''./d/s_2'' pg2, Absent ''./d/s_3'']"
    using probes_three [OF e(1,2)] by auto
  moreover have "ps = replicate 399 (Absent ''.//_1'')" using absent_replicate [OF e(3,4)] .
  ultimately show ?thesis using r by auto
qed

lemma kept_page_block:
  assumes "kept w st (Page p pg)" and "files w p = Some c"
  shows "list_ex (\<lambda>k. take (length (take 8192 c)) (heap st k) = take 8192 c) [2..<allocs st]"
proof -
  from assms obtain k where k: "k \<in> set [2..<allocs st]" "heap st k = pg"
    "fscanf_8192c c (fresh w k 8192) = Inr pg"
    by (auto simp: list_ex_iff)
  have "take (length (take 8192 c)) (heap st k) = take 8192 c"
    using fscanf_8192c_Inr(2) [OF k(3)] k(2) by simp
  with k(1) show ?thesis unfolding list_ex_iff by blast
qed

subsection \<open>The log only grows, and the first record of a run\<close>













section \<open>The claims\<close>

subsection \<open>C1: The manifest cannot be opened\<close>

text \<open>
  C1, as the code has it. When \<^verbatim>\<open>./trace_map.csv\<close> cannot be opened, \<^verbatim>\<open>main\<close> does
  not test the null pointer: the two name buffers are allocated, the loop is entered and
  the first \<^verbatim>\<open>fscanf\<close> is called on the null stream, which is undefined behaviour.
  Nothing has been read, probed or written at that point, but no exit status is
  chosen either.
\<close>

theorem missing_manifest_reaches_fscanf:
  assumes "files w ''./trace_map.csv'' = None"
  shows "main w = Inl (NullStream, init w) \<and> probes (init w) = [] \<and> reads (init w) = []
           \<and> stdout (init w) = []"
proof -
  have "iteration w 0 1 (init w) = Inl (NullStream, init w)"
    using assms by (simp add: iteration_def read_record_def init_simps)
  then have "outer w 0 1 (Suc 399) (init w) = Inl (NullStream, init w)"
    by (simp only: outer.simps) simp
  then show ?thesis by (simp add: main_unfold init_simps)
qed

theorem missing_manifest_reaches_fscanf_witness:
  "files no_manifest_world ''./trace_map.csv'' = None
   \<and> main no_manifest_world = Inl (NullStream, init no_manifest_world)
   \<and> exit_status (main no_manifest_world) = None"
proof -
  have h: "files no_manifest_world ''./trace_map.csv'' = None" by (simp add: no_manifest_world_def)
  show ?thesis using h missing_manifest_reaches_fscanf [OF h] by (simp add: exit_status_def)
qed

subsection \<open>C2: Records in file order, and the turns that follow\<close>

text \<open>
  C2, as the code has it. For a manifest of at most 400 records (an even number of
  tokens, none of them with a NUL byte), in a run that reaches the end of \<^verbatim>\<open>main\<close>:
  the first calls of \<^verbatim>\<open>fscanf\<close> return 2 and yield the records in file order; the
  loop still makes all of its 400 turns; every later call returns \<^verbatim>\<open>EOF\<close>; and every
  one of the 400 turns runs the scanner up to a path that cannot be opened, so the turns
  after the end of the manifest are not skipped.
\<close>

theorem manifest_records_then_end_of_file:
  assumes "files w ''./trace_map.csv'' = Some m" and "NUL \<notin> set m" and "even (length (tokens m))"
    and "length (records_of m) \<le> 400" and "main w = Inr (status, st)"
  shows "take (length (records_of m)) (reads st) = map yielded (records_of m)
         \<and> length (reads st) = 400
         \<and> list_all (\<lambda>r. fst r = EOF) (drop (length (records_of m)) (reads st))
         \<and> absent_count st = 400"
proof -
  from assms(5) obtain st3 where o: "outer w 0 1 400 (init w) = Inr st3"
    and st: "st = free 0 (free 1 st3)"
    by (rule main_Inr)
  have t: "trace_file (init w) = Some m" using assms(1) by (simp add: init_simps)
  from outer_records [OF o t assms(2,3)]
  obtain E where e: "reads st3 = map yielded (take 400 (pairs (tokens m))) @ E"
    "length E = 400 - length (pairs (tokens m))" "list_all (\<lambda>r. fst r = EOF) E"
    "absent_count st3 = absent_count (init w) + 400"
    by (auto simp: init_simps)
  have r: "take 400 (pairs (tokens m)) = records_of m"
    using assms(4) by (simp add: records_of_def)
  have a: "absent_count st = 400"
    using e(4) st by (simp add: absent_count_def free_simps init_simps)
  show ?thesis using e(1,2,3) r a st assms(4) by (simp add: free_simps records_of_def)
qed

theorem manifest_records_then_end_of_file_witness:
  "files bare_world ''./trace_map.csv'' = Some ''d s\<newline>''
   \<and> records_of ''d s\<newline>'' = [(''d'', ''s'')]
   \<and> exit_status (main bare_world) = Some 0
   \<and> take 1 (reads (last_state (main bare_world))) = [(2, ''d'', ''s'')]
   \<and> length (reads (last_state (main bare_world))) = 400
   \<and> list_all (\<lambda>r. fst r = EOF) (drop 1 (reads (last_state (main bare_world))))
   \<and> absent_count (last_state (main bare_world)) = 400"
proof -
  obtain st where st: "main bare_world = Inr (0, st)" using bare_run by blast
  have f: "files bare_world ''./trace_map.csv'' = Some ''d s\<newline>''" by (simp add: bare_world_def)
  have n: "NUL \<notin> set ''d s\<newline>''" by simp
  have e: "even (length (tokens ''d s\<newline>''))" by (simp add: tokens_d_s)
  have l: "length (records_of ''d s\<newline>'') \<le> 400" by (simp add: records_d_s)
  show ?thesis
    using manifest_records_then_end_of_file [OF f n e l st] f st
    by (simp add: records_d_s yielded_def exit_status_def last_state_def)
qed

text \<open>
  C2 as it is written does not hold: the turns after the end of the manifest are not
  skipped. With one record and no page file at all, each of the 399 turns that follow
  probes a path.
\<close>

theorem remaining_turns_not_skipped:
  "records_of ''d s\<newline>'' = [(''d'', ''s'')]
   \<and> files bare_world ''./trace_map.csv'' = Some ''d s\<newline>''
   \<and> exit_status (main bare_world) = Some 0
   \<and> probes (last_state (main bare_world)) = Absent ''./d/s_1'' # replicate 399 (Absent ''.//_1'')"
  using bare_facts records_d_s by (simp add: bare_world_def)

subsection \<open>C3: Pages 1 to k\<close>

text \<open>
  C3, where the code departs from it. Pages 1 and 2 of the record exist and page 3 does
  not, so the claim promises two page reads. The name buffer of the second probe is
  not initialised; when \<^verbatim>\<open>malloc\<close> hands back a block that starts with a byte other
  than NUL, \<^verbatim>\<open>strcat\<close> appends the name to that byte, the path probed is not the path of
  page 2, and the scan ends after one page.
\<close>

theorem recycled_name_buffer_ends_scan_early:
  "files recycled_world ''./d/s_1'' = Some ''abcdefgh''
   \<and> files recycled_world ''./d/s_2'' = Some ''ijklmnop''
   \<and> files recycled_world ''./d/s_3'' = None
   \<and> exit_status (main recycled_world) = Some 0
   \<and> length (filter is_page (probes (last_state (main recycled_world)))) = 1"
  using recycled_run by (simp add: recycled_world_def count_pages)

subsection \<open>C4: The page buffer\<close>




subsection \<open>C5: The storage of a page after its read\<close>

text \<open>
  C5, where the code departs from it. The loop of lines 46 to 48 assigns 0 to the
  pointer, 8192 times, and writes no byte of the block. After a run that read two pages,
  the heap still holds a block with the bytes of page 1 and a block with the bytes of
  page 2: no storage was reset, between the two reads or later.
\<close>

theorem page_bytes_stay_in_the_heap:
  "exit_status (main two_page_world) = Some 0
   \<and> map is_page (take 3 (probes (last_state (main two_page_world)))) = [True, True, False]
   \<and> list_ex (\<lambda>k. take 8 (heap (last_state (main two_page_world)) k) = ''abcdefgh'')
        [2..<allocs (last_state (main two_page_world))]
   \<and> list_ex (\<lambda>k. take 8 (heap (last_state (main two_page_world)) k) = ''ijklmnop'')
        [2..<allocs (last_state (main two_page_world))]"
proof -
  obtain st pg1 pg2 where r: "main two_page_world = Inr (0, st)"
    "probes st = Page ''./d/s_1'' pg1 # Page ''./d/s_2'' pg2 # Absent ''./d/s_3''
                   # replicate 399 (Absent ''.//_1'')"
    using two_page_run by blast
  have "list_all (kept two_page_world st) (probes st)"
    using main_inv [of two_page_world] r(1) by (simp add: inv_def last_state_def)
  then have k: "kept two_page_world st (Page ''./d/s_1'' pg1)" "kept two_page_world st (Page ''./d/s_2'' pg2)"
    using r(2) by (simp_all del: kept.simps)
  have f: "files two_page_world ''./d/s_1'' = Some ''abcdefgh''"
    "files two_page_world ''./d/s_2'' = Some ''ijklmnop''"
    by (simp_all add: two_page_world_def)
  have l: "length (take 8192 ''abcdefgh'') = 8" "take 8192 ''abcdefgh'' = ''abcdefgh''"
    "length (take 8192 ''ijklmnop'') = 8" "take 8192 ''ijklmnop'' = ''ijklmnop''"
    by simp_all
  note b = kept_page_block [OF k(1) f(1), unfolded l] kept_page_block [OF k(2) f(2), unfolded l]
  have n: "Suc (Suc (Suc (Suc (Suc (Suc (Suc (Suc 0))))))) = 8" by simp
  show ?thesis using r b by (simp add: exit_status_def last_state_def n)
qed

subsection \<open>C6: The path of a probe\<close>

text \<open>
  C6, where the code departs from it. The second path probed for the record
  \<open>(d, s)\<close> is \<^verbatim>\<open>X./d/s_2\<close> and not \<^verbatim>\<open>./d/s_2\<close>: the path is what the fresh block
  held, followed by the name of the claim.
\<close>

theorem recycled_name_buffer_prefixes_path:
  "junk recycled_world 4 0 = CHR ''X''
   \<and> page_name ''d'' ''s'' 2 = ''./d/s_2''
   \<and> exit_status (main recycled_world) = Some 0
   \<and> map path_of (take 2 (probes (last_state (main recycled_world)))) = [''./d/s_1'', ''X./d/s_2'']"
proof -
  have "map path_of (take 2 (probes (last_state (main recycled_world)))) =
      take 2 (map path_of (probes (last_state (main recycled_world))))"
    by (simp add: take_map)
  then show ?thesis using recycled_run by (simp add: recycled_world_def name_eval)
qed

subsection \<open>C7: The diagnostic output\<close>

text \<open>
  C7, as the code has it. Every path that is probed, the last and absent one included,
  is written to the output before the probe, and every page that was opened adds one
  byte, the byte at offset 3 of the page buffer. That byte is the byte at offset 3 of
  the file when the file has at least 4 bytes; for a shorter file it is what the
  uninitialised block held there.
\<close>

theorem probes_and_bytes_reported:
  "stdout (last_state (main w)) = concat (map render (probes (last_state (main w))))
   \<and> list_all (offset3_of_file w) (probes (last_state (main w)))"
proof -
  have i: "stdout (last_state (main w)) = concat (map render (probes (last_state (main w))))"
    and e: "list_all (entry_ok w) (probes (last_state (main w)))"
    using main_inv [of w] by (simp_all add: inv_def)
  from e have "list_all (offset3_of_file w) (probes (last_state (main w)))"
    using entry_ok_offset3_of_file unfolding list_all_iff by blast
  with i show ?thesis by simp
qed

theorem probes_and_bytes_reported_witness:
  "files demo_world ''./d/s_1'' = Some ''abcdefgh''
   \<and> buffer_of (hd (probes (last_state (main demo_world)))) ! 3 = CHR ''d''
   \<and> stdout (last_state (main demo_world)) =
       ''./d/s_1 \<newline>'' @ [buffer_of (hd (probes (last_state (main demo_world)))) ! 3] @ ''  \<newline>''
         @ ''./d/s_2 \<newline>'' @ concat (replicate 399 ''.//_1 \<newline>'')"
proof -
  define buf where "buf = buffer_of (hd (probes (last_state (main demo_world))))"
  have f: "files demo_world ''./d/s_1'' = Some ''abcdefgh''" by (simp add: demo_world_def)
  have p: "probes (last_state (main demo_world)) =
      Page ''./d/s_1'' buf # Absent ''./d/s_2'' # replicate 399 (Absent ''.//_1'')"
    using demo_probes by (simp add: buf_def)
  note t = probes_and_bytes_reported [of demo_world, unfolded p]
  from t have "offset3_of_file demo_world (Page ''./d/s_1'' buf)"
    by (simp del: offset3_of_file.simps)
  then have "buf ! 3 = CHR ''d''" using f by simp
  moreover from t have "stdout (last_state (main demo_world)) =
      ''./d/s_1 \<newline>'' @ [buf ! 3] @ ''  \<newline>'' @ ''./d/s_2 \<newline>'' @ concat (replicate 399 ''.//_1 \<newline>'')"
    by (simp add: concat_render_absent)
  ultimately show ?thesis using f by (simp add: buf_def)
qed

text \<open>
  C7 as it is written does not hold for a short page. A page file of 2 bytes has no byte
  at offset 3. The page is counted all the same, and
  the byte written for it is what \<^verbatim>\<open>malloc\<close> left at offset 3 of the page buffer; here
  a \<open>Z\<close>, which is no byte of the file.
\<close>

theorem short_page_reports_stale_byte:
  "files short_page_world ''./d/s_1'' = Some ''ab''
   \<and> exit_status (main short_page_world) = Some 0
   \<and> is_page (hd (probes (last_state (main short_page_world))))
   \<and> take 13 (stdout (last_state (main short_page_world))) = ''./d/s_1 \<newline>'' @ ''Z  \<newline>''"
proof -
  obtain st pg where r: "main short_page_world = Inr (0, st)"
    "probes st = Page ''./d/s_1'' pg # Absent ''./d/s_2'' # replicate 399 (Absent ''.//_1'')"
    "stdout st = concat (map render (probes st))"
    using short_run by blast
  have f: "files short_page_world ''./d/s_1'' = Some ''ab''" by (simp add: short_page_world_def)
  have "list_all (kept short_page_world st) (probes st)"
    using main_inv [of short_page_world] r(1) by (simp add: inv_def last_state_def)
  then have "kept short_page_world st (Page ''./d/s_1'' pg)"
    using r(2) by (simp del: kept.simps)
  then obtain k where "fscanf_8192c ''ab'' (fresh short_page_world k 8192) = Inr pg"
    using f by (auto simp: list_ex_iff)
  then have "pg ! 3 = CHR ''Z''" by (rule short_page_byte)
  then have "take 13 (stdout st) = ''./d/s_1 \<newline>'' @ ''Z  \<newline>''"
    using r(2,3) by simp
  then show ?thesis using r f by (simp add: exit_status_def last_state_def)
qed

subsection \<open>C8: A record without pages, and the exit status\<close>

text \<open>
  C8, where the code departs from it. A record whose folder and stem have 60 bytes each
  fits the two 100-byte name buffers, but its page name does not fit the 100-byte
  block \<open>fname\<close>: the fourth \<^verbatim>\<open>strcat\<close> of the first probe writes beyond the block.
  The run does not reach the second record of the manifest, and does not reach the end
  of \<^verbatim>\<open>main\<close>.
\<close>

theorem long_record_stops_the_run:
  "files long_names_world ''./trace_map.csv'' = Some long_manifest
   \<and> records_of long_manifest = [(long_folder, long_stem), (''d'', ''s'')]
   \<and> length long_folder = 60 \<and> length long_stem = 60
   \<and> fault_of (main long_names_world) = Some OutOfBounds
   \<and> exit_status (main long_names_world) = None
   \<and> reads (last_state (main long_names_world)) = [(2, long_folder, long_stem)]
   \<and> probes (last_state (main long_names_world)) = []"
  using long_names_run tokens_long by (simp add: long_names_world_def records_of_def)

subsection \<open>C9: The turns after the end of the manifest\<close>




subsection \<open>C10: The byte at offset 3\<close>

text \<open>
  C10. The diagnostic output of a run is, probe by probe, the path and, for a page, one
  byte; for every page whose file has at least 4 bytes that byte is the byte at offset
  3 of the file.
\<close>

theorem reported_byte_is_at_offset_3:
  "stdout (last_state (main w)) = concat (map (report w) (probes (last_state (main w))))"
proof -
  have i: "stdout (last_state (main w)) = concat (map render (probes (last_state (main w))))"
    and e: "list_all (entry_ok w) (probes (last_state (main w)))"
    using main_inv [of w] by (simp_all add: inv_def)
  have "map render (probes (last_state (main w))) = map (report w) (probes (last_state (main w)))"
    using e entry_ok_report by (intro map_cong) (auto simp: list_all_iff)
  with i show ?thesis by simp
qed

theorem reported_byte_is_at_offset_3_witness:
  "files demo_world ''./d/s_1'' = Some ''abcdefgh''
   \<and> stdout (last_state (main demo_world)) =
       ''./d/s_1 \<newline>'' @ ''d  \<newline>'' @ ''./d/s_2 \<newline>'' @ concat (replicate 399 ''.//_1 \<newline>'')"
proof -
  have f: "files demo_world ''./d/s_1'' = Some ''abcdefgh''" by (simp add: demo_world_def)
  have "stdout (last_state (main demo_world)) =
      concat (map (report demo_world) (Page ''./d/s_1'' (buffer_of (hd (probes (last_state (main demo_world)))))
       # Absent ''./d/s_2'' # replicate 399 (Absent ''.//_1'')))"
    using reported_byte_is_at_offset_3 [of demo_world] demo_probes by simp
  then show ?thesis using f by (simp add: concat_report_absent)
qed

end
